theory Spec2Isabelle
  imports Complex_Main "HOL-Library.Word" "HOL-Library.Sublist"
begin

section \<open>Basic data\<close>

text \<open>
  Python \<open>bytes\<close> are lists of 8-bit words. A Python \<open>str\<close> is a sequence of Unicode
  code points, so it is a list of naturals (\<open>len\<close> counts code points); \<open>ustr\<close> turns
  an ASCII literal into such a string. Python integers are unbounded: \<open>int\<close>.
\<close>

type_synonym byte = "8 word"
type_synonym str = "nat list"

definition ustr :: "string \<Rightarrow> str" where
  "ustr s = map of_char s"

datatype error =
    ValueError str
  | RuntimeError str
  | TimeoutError str
  | FileNotFoundError
  | UnicodeEncodeError
  | RegexError

section \<open>pty_runner.py\<close>

record PtySize =
  rows :: int
  cols :: int

definition PtySize_default :: PtySize where
  "PtySize_default = \<lparr>rows = 24, cols = 80\<rparr>"

record PtyExitStatus =
  returncode :: "int option"
  signal :: "int option"

definition succeeded :: "PtyExitStatus \<Rightarrow> bool" where
  "succeeded st \<longleftrightarrow> returncode st = Some 0 \<and> signal st = None"

text \<open>
  What \<open>proc.wait(timeout=timeout)\<close> does to the child: it raises
  \<open>subprocess.TimeoutExpired\<close>, or it returns and leaves \<open>proc.returncode\<close> set
  (the code still tests that attribute for \<open>None\<close>).
\<close>

datatype Popen = TimeoutExpired | Exited "int option"

text \<open>
  \<open>PtySessionRunner.wait\<close>; the argument is \<open>self._process\<close>, \<open>None\<close> outside
  the context manager (the \<open>process\<close> property then raises).
\<close>

definition wait :: "Popen option \<Rightarrow> error + PtyExitStatus" where
  "wait process =
    (case process of
       None \<Rightarrow> Inl (RuntimeError (ustr ''Process is not running''))
     | Some TimeoutExpired \<Rightarrow>
         Inl (TimeoutError (ustr ''Subprocess did not exit within timeout''))
     | Some (Exited None) \<Rightarrow> Inr \<lparr>returncode = None, signal = None\<rparr>
     | Some (Exited (Some rc)) \<Rightarrow>
         (if rc < 0 then Inr \<lparr>returncode = None, signal = Some \<bar>rc\<bar>\<rparr>
          else Inr \<lparr>returncode = Some rc, signal = None\<rparr>))"

section \<open>recording.py\<close>

record Keyframe =
  label :: str
  offset_kf :: int
  timestamp :: real

text \<open>
  \<open>AnsiStreamRecorder\<close>: \<open>fileobj\<close> holds the bytes handed to the file object that
  \<open>__init__\<close> opened with mode \<open>wb\<close> (so it starts empty), in write order;
  \<open>close\<close> flushes them to \<open>path\<close>. Calls are taken one after the other, which is
  what the lock enforces.
\<close>

record AnsiStreamRecorder =
  path :: str
  fileobj :: "byte list"
  closed :: bool
  offset_rec :: int

definition AnsiStreamRecorder_init :: "str \<Rightarrow> AnsiStreamRecorder" where
  "AnsiStreamRecorder_init p = \<lparr>path = p, fileobj = [], closed = False, offset_rec = 0\<rparr>"

definition append_rec :: "byte list \<Rightarrow> AnsiStreamRecorder \<Rightarrow> error + (int \<times> AnsiStreamRecorder)" where
  "append_rec chunk r =
    (if chunk = [] then Inr (offset_rec r, r)
     else if closed r then Inl (ValueError (ustr ''write to closed file''))
     else
       (let r' = r\<lparr>fileobj := fileobj r @ chunk,
                     offset_rec := offset_rec r + int (length chunk)\<rparr>
        in Inr (offset_rec r', r')))"

definition close :: "AnsiStreamRecorder \<Rightarrow> AnsiStreamRecorder" where
  "close r = (if closed r then r else r\<lparr>closed := True\<rparr>)"

text \<open>A sequence of \<open>append\<close> calls, with the value each call returned.\<close>

fun append_all :: "AnsiStreamRecorder \<Rightarrow> byte list list \<Rightarrow> error + (int list \<times> AnsiStreamRecorder)" where
  "append_all r [] = Inr ([], r)"
| "append_all r (chunk # chunks) =
    (case append_rec chunk r of
       Inl e \<Rightarrow> Inl e
     | Inr (ret, r') \<Rightarrow>
         (case append_all r' chunks of
            Inl e \<Rightarrow> Inl e
          | Inr (rets, r'') \<Rightarrow> Inr (ret # rets, r'')))"

section \<open>replay.py: the normalizer\<close>

text \<open>
  \<open>chunk.decode("utf-8", errors="ignore")\<close>, after CPython's decoder: an invalid start
  byte is dropped alone; a start byte whose continuation is wrong is dropped together with
  the continuation bytes accepted so far, and decoding resumes at the offending byte; a
  sequence cut off by the end of the data is dropped whole. Overlong forms, surrogates
  and code points above U+10FFFF are invalid.
\<close>

definition is_continuation_byte :: "byte \<Rightarrow> bool" where
  "is_continuation_byte b \<longleftrightarrow> 0x80 \<le> b \<and> b < 0xC0"

fun utf8_decode_ignore :: "byte list \<Rightarrow> str" where
  "utf8_decode_ignore [] = []"
| "utf8_decode_ignore (ch # s) =
    (if ch < 0x80 then unat ch # utf8_decode_ignore s
     else if ch < 0xC2 then utf8_decode_ignore s
     else if ch < 0xE0 then
       (case s of
          [] \<Rightarrow> []
        | ch2 # s2 \<Rightarrow>
            if \<not> is_continuation_byte ch2 then utf8_decode_ignore s
            else (unat ch * 64 + unat ch2 - 0x3080) # utf8_decode_ignore s2)
     else if ch < 0xF0 then
       (case s of
          [] \<Rightarrow> []
        | ch2 # s2 \<Rightarrow>
            if \<not> is_continuation_byte ch2 \<or> (if ch2 < 0xA0 then ch = 0xE0 else ch = 0xED)
            then utf8_decode_ignore s
            else
              (case s2 of
                 [] \<Rightarrow> []
               | ch3 # s3 \<Rightarrow>
                   if \<not> is_continuation_byte ch3 then utf8_decode_ignore s2
                   else (unat ch * 4096 + unat ch2 * 64 + unat ch3 - 0xE2080)
                        # utf8_decode_ignore s3))
     else if ch < 0xF5 then
       (case s of
          [] \<Rightarrow> []
        | ch2 # s2 \<Rightarrow>
            if \<not> is_continuation_byte ch2 \<or> (if ch2 < 0x90 then ch = 0xF0 else ch = 0xF4)
            then utf8_decode_ignore s
            else
              (case s2 of
                 [] \<Rightarrow> []
               | ch3 # s3 \<Rightarrow>
                   if \<not> is_continuation_byte ch3 then utf8_decode_ignore s2
                   else
                     (case s3 of
                        [] \<Rightarrow> []
                      | ch4 # s4 \<Rightarrow>
                          if \<not> is_continuation_byte ch4 then utf8_decode_ignore s3
                          else (unat ch * 262144 + unat ch2 * 4096 + unat ch3 * 64 + unat ch4
                                - 0x3C82080) # utf8_decode_ignore s4)))
     else utf8_decode_ignore s)"

text \<open>
  The two compiled patterns, each as the function that matches it at the start of a text
  and returns the length of the match.

  \<open>_DEC_PRIVATE_RE\<close> is \<^verbatim>\<open>\x1b\[(\?[\d;]*)([hl])\<close>. In a \<open>str\<close> pattern \<^verbatim>\<open>\d\<close> is any
  Unicode decimal digit; \<open>decimal_ranges\<close> lists them (start, count) as of Unicode 15.
  The class is greedy, and giving characters back never helps, since none of them is
  \<open>h\<close> or \<open>l\<close>.

  \<open>_OSC_RE\<close> is \<^verbatim>\<open>\x1b\].*?(?:\x07|\x1b\\)\<close> with \<open>DOTALL\<close>: the lazy \<^verbatim>\<open>.*?\<close> stops at the
  first position where BEL or ESC backslash follows.
\<close>

definition decimal_ranges :: "(nat \<times> nat) list" where
  "decimal_ranges =
    [(0x30, 10), (0x660, 10), (0x6F0, 10), (0x7C0, 10), (0x966, 10), (0x9E6, 10), (0xA66, 10),
     (0xAE6, 10), (0xB66, 10), (0xBE6, 10), (0xC66, 10), (0xCE6, 10), (0xD66, 10), (0xDE6, 10),
     (0xE50, 10), (0xED0, 10), (0xF20, 10), (0x1040, 10), (0x1090, 10), (0x17E0, 10),
     (0x1810, 10), (0x1946, 10), (0x19D0, 10), (0x1A80, 10), (0x1A90, 10), (0x1B50, 10),
     (0x1BB0, 10), (0x1C40, 10), (0x1C50, 10), (0xA620, 10), (0xA8D0, 10), (0xA900, 10),
     (0xA9D0, 10), (0xA9F0, 10), (0xAA50, 10), (0xABF0, 10), (0xFF10, 10), (0x104A0, 10),
     (0x10D30, 10), (0x11066, 10), (0x110F0, 10), (0x11136, 10), (0x111D0, 10), (0x112F0, 10),
     (0x11450, 10), (0x114D0, 10), (0x11650, 10), (0x116C0, 10), (0x11730, 10), (0x118E0, 10),
     (0x11950, 10), (0x11C50, 10), (0x11D50, 10), (0x11DA0, 10), (0x11F50, 10), (0x16A60, 10),
     (0x16AC0, 10), (0x16B50, 10), (0x1D7CE, 50), (0x1E140, 10), (0x1E2F0, 10), (0x1E4F0, 10),
     (0x1E950, 10), (0x1FBF0, 10)]"

definition isdecimal :: "nat \<Rightarrow> bool" where
  "isdecimal c \<longleftrightarrow> list_ex (\<lambda>(lo, n). lo \<le> c \<and> c < lo + n) decimal_ranges"

definition DEC_PRIVATE_RE :: "str \<Rightarrow> nat option" where
  "DEC_PRIVATE_RE text =
    (case text of
       e # b # q # rest \<Rightarrow>
         if e = 0x1B \<and> b = 0x5B \<and> q = 0x3F then
           (let params = takeWhile (\<lambda>c. isdecimal c \<or> c = 0x3B) rest in
            case drop (length params) rest of
              c # _ \<Rightarrow> if c = 0x68 \<or> c = 0x6C then Some (length params + 4) else None
            | [] \<Rightarrow> None)
         else None
     | _ \<Rightarrow> None)"

fun osc_terminator :: "str \<Rightarrow> nat option" where
  "osc_terminator [] = None"
| "osc_terminator (c # cs) =
    (if c = 0x07 then Some 1
     else if c = 0x1B \<and> (case cs of d # _ \<Rightarrow> d = 0x5C | [] \<Rightarrow> False) then Some 2
     else map_option Suc (osc_terminator cs))"

definition OSC_RE :: "str \<Rightarrow> nat option" where
  "OSC_RE text =
    (case text of
       e # b # rest \<Rightarrow>
         if e = 0x1B \<and> b = 0x5D then map_option (\<lambda>n. n + 2) (osc_terminator rest) else None
     | _ \<Rightarrow> None)"

text \<open>
  \<open>pattern.sub(repl, text)\<close> with a callable \<open>repl\<close>: the text is scanned from the left,
  each match is handed to \<open>repl\<close> (here with the warning list the closure appends to)
  and scanning resumes behind the match. Neither pattern matches the empty string, so the
  rule of \<open>re.sub\<close> for empty matches is not needed: a length 0 counts as no match.
\<close>

fun re_sub :: "(str \<Rightarrow> nat option) \<Rightarrow> (str \<Rightarrow> 'w \<Rightarrow> str \<times> 'w) \<Rightarrow> str \<Rightarrow> 'w \<Rightarrow> str \<times> 'w" where
  "re_sub pattern repl [] ws = ([], ws)"
| "re_sub pattern repl (c # cs) ws =
    (case pattern (c # cs) of
       Some (Suc n) \<Rightarrow>
         (let (r, ws') = repl (take (Suc n) (c # cs)) ws;
              (out, ws'') = re_sub pattern repl (drop n cs) ws'
          in (r @ out, ws''))
     | _ \<Rightarrow> (let (out, ws') = re_sub pattern repl cs ws in (c # out, ws')))"

text \<open>
  \<open>_repr_escape(seq)\<close> is \<open>json.dumps(seq)[1:-1]\<close>: the JSON string without its quotes,
  with \<open>ensure_ascii\<close>: printable ASCII except the backslash and the double quote is kept,
  everything else is escaped (\<open>\uXXXX\<close> in lowercase hexadecimal, a surrogate pair above
  U+FFFF).
\<close>

definition hexdigit :: "nat \<Rightarrow> nat" where
  "hexdigit n = (if n < 10 then 0x30 + n else 0x57 + n)"

definition u_escape :: "nat \<Rightarrow> str" where
  "u_escape c = [0x5C, 0x75, hexdigit (c div 4096 mod 16), hexdigit (c div 256 mod 16),
                 hexdigit (c div 16 mod 16), hexdigit (c mod 16)]"

definition ascii_escape_unichar :: "nat \<Rightarrow> str" where
  "ascii_escape_unichar c =
    (if c = 0x5C then [0x5C, 0x5C]
     else if c = 0x22 then [0x5C, 0x22]
     else if c = 0x08 then [0x5C, 0x62]
     else if c = 0x0C then [0x5C, 0x66]
     else if c = 0x0A then [0x5C, 0x6E]
     else if c = 0x0D then [0x5C, 0x72]
     else if c = 0x09 then [0x5C, 0x74]
     else if c \<ge> 0x10000 then
       u_escape (0xD800 + (c - 0x10000) div 1024) @ u_escape (0xDC00 + (c - 0x10000) mod 1024)
     else u_escape c)"

definition repr_escape :: "str \<Rightarrow> str" where
  "repr_escape seq =
    concat (map (\<lambda>c. if 0x20 \<le> c \<and> c \<le> 0x7E \<and> c \<noteq> 0x5C \<and> c \<noteq> 0x22 then [c]
                      else ascii_escape_unichar c) seq)"

record TerminalCapabilities =
  supports_dec_private :: bool
  allow_osc :: bool

definition TerminalCapabilities_default :: TerminalCapabilities where
  "TerminalCapabilities_default = \<lparr>supports_dec_private = False, allow_osc = False\<rparr>"

record ParseWarning =
  kind :: str
  original :: str
  normalized :: "str option"
  message :: "str option"

definition dec_repl :: "TerminalCapabilities \<Rightarrow> str \<Rightarrow> ParseWarning list \<Rightarrow> str \<times> ParseWarning list" where
  "dec_repl capabilities seq warnings =
    (if supports_dec_private capabilities then (seq, warnings)
     else ([], warnings @ [\<lparr>kind = ustr ''dec-private'', original = repr_escape seq,
                             normalized = Some [], message = None\<rparr>]))"

definition osc_repl :: "TerminalCapabilities \<Rightarrow> str \<Rightarrow> ParseWarning list \<Rightarrow> str \<times> ParseWarning list" where
  "osc_repl capabilities seq warnings =
    (if allow_osc capabilities then (seq, warnings)
     else ([], warnings @ [\<lparr>kind = ustr ''osc-suppressed'', original = repr_escape seq,
                             normalized = Some [], message = None\<rparr>]))"

definition normalize :: "TerminalCapabilities \<Rightarrow> byte list \<Rightarrow> str \<times> ParseWarning list" where
  "normalize capabilities chunk =
    (let text = utf8_decode_ignore chunk;
         (text, warnings) = re_sub DEC_PRIVATE_RE (dec_repl capabilities) text [];
         (text, warnings) = re_sub OSC_RE (osc_repl capabilities) text warnings
     in (text, warnings))"

section \<open>replay.py: the replay parser\<close>

record WarningEntry =
  offset_we :: int
  warning :: ParseWarning

record CellStyle =
  char :: str
  fg :: "str option"
  bg :: "str option"
  bold :: bool
  reverse :: bool

record ScreenState =
  offset :: int
  cursor_row :: int
  cursor_col :: int
  cells :: "CellStyle list list"

record ReplayResult =
  result_states :: "ScreenState list"
  result_warnings :: "WarningEntry list"

text \<open>
  The terminal emulator (pyte) is not part of the repository. \<open>pyte_Screen\<close> holds the
  attributes of a screen that \<open>_snapshot\<close> reads; an engine is the emulator's state
  (screen and stream, which keeps an unfinished escape sequence between two feeds) with
  its three operations: \<open>pyte.Screen(cols, rows)\<close> followed by \<open>pyte.Stream(screen)\<close>,
  \<open>stream.feed(text)\<close>, and the view of the screen.
\<close>

record pyte_Char =
  data :: str
  char_fg :: str
  char_bg :: str
  char_bold :: bool
  char_reverse :: bool

record pyte_Screen =
  lines :: int
  columns :: int
  buffer :: "nat \<rightharpoonup> (nat \<rightharpoonup> pyte_Char)"
  cursor_x :: int
  cursor_y :: int

definition pyte_Char_init :: "str \<Rightarrow> pyte_Char" where
  "pyte_Char_init d =
    \<lparr>data = d, char_fg = ustr ''default'', char_bg = ustr ''default'',
     char_bold = False, char_reverse = False\<rparr>"

record 'vt vt_engine =
  vt_new :: "int \<Rightarrow> int \<Rightarrow> 'vt"
  vt_feed :: "'vt \<Rightarrow> str \<Rightarrow> 'vt"
  vt_screen :: "'vt \<Rightarrow> pyte_Screen"

definition snapshot :: "pyte_Screen \<Rightarrow> int \<Rightarrow> ScreenState" where
  "snapshot screen off =
    (let empty = pyte_Char_init (ustr '' '');
         rows_list =
           map (\<lambda>row_idx.
                  let row_buffer = (case buffer screen row_idx of
                                      None \<Rightarrow> Map.empty | Some r \<Rightarrow> r)
                  in map (\<lambda>col_idx.
                            let ch = (case row_buffer col_idx of None \<Rightarrow> empty | Some c \<Rightarrow> c);
                                val = (if data ch \<noteq> [] then data ch else ustr '' '')
                            in \<lparr>char = val, fg = Some (char_fg ch), bg = Some (char_bg ch),
                                bold = char_bold ch, reverse = char_reverse ch\<rparr>)
                         [0..<nat (columns screen)])
               [0..<nat (lines screen)]
     in \<lparr>offset = off, cursor_row = cursor_y screen, cursor_col = cursor_x screen,
         cells = rows_list\<rparr>)"

text \<open>
  \<open>handle.read(chunk_size)\<close> on the buffered reader of a regular file: \<open>-1\<close> reads to
  the end, a smaller argument is rejected, otherwise up to \<open>chunk_size\<close> bytes are taken.
  The result is the chunk and the rest of the file.
\<close>

definition read :: "int \<Rightarrow> byte list \<Rightarrow> error + (byte list \<times> byte list)" where
  "read n handle =
    (if n < - 1 then Inl (ValueError (ustr ''read length must be non-negative or -1''))
     else if n = - 1 then Inr (handle, [])
     else Inr (take (nat n) handle, drop (nat n) handle))"

record AnsiReplayParser =
  pty_size :: PtySize
  handler :: TerminalCapabilities
  collector :: "WarningEntry list"
  bytes_consumed :: int

definition AnsiReplayParser_init :: "PtySize option \<Rightarrow> TerminalCapabilities option \<Rightarrow> AnsiReplayParser" where
  "AnsiReplayParser_init size_arg handler_arg =
    \<lparr>pty_size = (case size_arg of None \<Rightarrow> PtySize_default | Some s \<Rightarrow> s),
     handler = (case handler_arg of None \<Rightarrow> TerminalCapabilities_default | Some h \<Rightarrow> h),
     collector = [], bytes_consumed = 0\<rparr>"

text \<open>The \<open>while True\<close> loop of \<open>parse\<close>, on the unread rest of the file.\<close>

function parse_loop ::
  "'vt vt_engine \<Rightarrow> int \<Rightarrow> byte list \<Rightarrow> AnsiReplayParser \<Rightarrow> 'vt \<Rightarrow> ScreenState list
     \<Rightarrow> error + (AnsiReplayParser \<times> 'vt \<times> ScreenState list)" where
  "parse_loop engine chunk_size handle self stream states_acc =
    (case read chunk_size handle of
       Inl e \<Rightarrow> Inl e
     | Inr (raw, handle') \<Rightarrow>
         if raw = [] then Inr (self, stream, states_acc)
         else
           (let (normalized, warns) = normalize (handler self) raw;
                self1 = self\<lparr>collector := collector self
                          @ map (\<lambda>w. \<lparr>offset_we = bytes_consumed self, warning = w\<rparr>) warns\<rparr>;
                self2 = self1\<lparr>bytes_consumed := bytes_consumed self1 + int (length raw)\<rparr>
            in if normalized = [] then
                 parse_loop engine chunk_size handle' self2 stream states_acc
               else
                 (let stream' = vt_feed engine stream normalized
                  in parse_loop engine chunk_size handle' self2 stream'
                       (states_acc @ [snapshot (vt_screen engine stream') (bytes_consumed self2)]))))"
  by pat_completeness auto
termination
  by (relation "measure (\<lambda>(engine, chunk_size, handle, self, stream, states_acc). length handle)")
     (auto simp: read_def split: if_splits)

text \<open>
  \<open>AnsiReplayParser.parse\<close>. \<open>fs\<close> maps a path to the contents of the file there. The
  result is the \<open>ReplayResult\<close> and the parser with its counter and collector updated.
\<close>

definition parse ::
  "'vt vt_engine \<Rightarrow> (str \<rightharpoonup> byte list) \<Rightarrow> AnsiReplayParser \<Rightarrow> str \<Rightarrow> int
     \<Rightarrow> error + (ReplayResult \<times> AnsiReplayParser)" where
  "parse engine fs self path_arg chunk_size =
    (let stream = vt_new engine (cols (pty_size self)) (rows (pty_size self));
         self0 = self\<lparr>collector := [], bytes_consumed := 0\<rparr>
     in case fs path_arg of
          None \<Rightarrow> Inl FileNotFoundError
        | Some handle \<Rightarrow>
            (case parse_loop engine chunk_size handle self0 stream [] of
               Inl e \<Rightarrow> Inl e
             | Inr (self', stream', states') \<Rightarrow>
                 Inr (\<lparr>result_states = states', result_warnings = collector self'\<rparr>, self')))"

section \<open>replay.py: keyframe correlation\<close>

definition locate_state :: "ScreenState list \<Rightarrow> int \<Rightarrow> ScreenState option" where
  "locate_state states off =
    (case find (\<lambda>state. offset state \<ge> off) states of
       Some state \<Rightarrow> Some state
     | None \<Rightarrow> (if states \<noteq> [] then Some (last states) else None))"

definition extract_keyframes :: "ScreenState list \<Rightarrow> Keyframe list \<Rightarrow> (str \<rightharpoonup> ScreenState)" where
  "extract_keyframes states keyframes =
    (if states = [] then Map.empty
     else fold (\<lambda>frame mapping.
                  case locate_state states (offset_kf frame) of
                    Some candidate \<Rightarrow> mapping(label frame \<mapsto> candidate)
                  | None \<Rightarrow> mapping)
               keyframes Map.empty)"

section \<open>script.py\<close>

text \<open>
  \<open>OutputBuffer.wait_until\<close>. The loop runs under the buffer's lock and gives it up only
  inside \<open>Condition.wait\<close>, where the pump thread may append. What one evaluation of the
  predicate observes of the pump thread and of the clock is the bytes in the buffer and the
  value of \<open>time.monotonic()\<close>, which the loop reads when the predicate is false; a call
  observes the clock once on entry and then a trace of such observations, one per
  evaluation. Where the trace ends before the loop does, the result is \<open>None\<close>. Clock
  values and timeouts are reals.
\<close>

record observation =
  seen :: "byte list"
  monotonic :: real

record wait_env =
  call_start :: real
  observations :: "observation list"

fun wait_loop :: "(str \<Rightarrow> bool) \<Rightarrow> real \<Rightarrow> observation list \<Rightarrow> bool option" where
  "wait_loop predicate_arg deadline [] = None"
| "wait_loop predicate_arg deadline (ob # later) =
    (if predicate_arg (utf8_decode_ignore (seen ob)) then Some True
     else (let remaining = deadline - monotonic ob
           in if remaining \<le> 0 then Some False
              else wait_loop predicate_arg deadline later))"

definition wait_until :: "(str \<Rightarrow> bool) \<Rightarrow> real \<Rightarrow> wait_env \<Rightarrow> bool option" where
  "wait_until predicate_arg timeout_arg env =
    (let deadline = call_start env + timeout_arg
     in wait_loop predicate_arg deadline (observations env))"

record OutputCondition =
  contains :: "str option"
  regex :: "str option"
  predicate :: "(str \<Rightarrow> bool) option"

text \<open>
  The regex engine is Python's: \<open>re_compile p\<close> is \<open>None\<close> when \<open>re.compile(p)\<close> raises
  \<open>re.error\<close>, and otherwise the function that tells whether \<open>re.search(p, text)\<close> finds
  a match.
\<close>

type_synonym regex_engine = "str \<Rightarrow> (str \<Rightarrow> bool) option"

text \<open>The dataclass constructor followed by \<open>__post_init__\<close>.\<close>

definition OutputCondition_init ::
  "regex_engine \<Rightarrow> str option \<Rightarrow> str option \<Rightarrow> (str \<Rightarrow> bool) option \<Rightarrow> error + OutputCondition" where
  "OutputCondition_init re_compile contains_arg regex_arg predicate_arg =
    (if contains_arg = None \<and> regex_arg = None \<and> predicate_arg = None then
       Inl (ValueError (ustr ''At least one condition must be provided''))
     else if (case regex_arg of None \<Rightarrow> False | Some r \<Rightarrow> re_compile r = None) then
       Inl RegexError
     else Inr \<lparr>contains = contains_arg, regex = regex_arg, predicate = predicate_arg\<rparr>)"

text \<open>
  \<open>OutputCondition.matches\<close>. Each \<open>if self.field and ...\<close> tests the truth value of the
  field: \<open>None\<close> and the empty string are both false, a function object is true.
\<close>

definition matches :: "regex_engine \<Rightarrow> OutputCondition \<Rightarrow> str \<Rightarrow> error + bool" where
  "matches re_compile self text =
    (if (case contains self of None \<Rightarrow> False | Some c \<Rightarrow> c \<noteq> [] \<and> sublist c text) then Inr True
     else if (case regex self of None \<Rightarrow> False | Some r \<Rightarrow> r \<noteq> [] \<and> re_compile r = None) then
       Inl RegexError
     else if (case regex self of
                None \<Rightarrow> False
              | Some r \<Rightarrow> r \<noteq> [] \<and> (case re_compile r of None \<Rightarrow> False | Some search \<Rightarrow> search text))
       then Inr True
     else if (case predicate self of None \<Rightarrow> False | Some p \<Rightarrow> p text) then Inr True
     else Inr False)"

fun join :: "str \<Rightarrow> str list \<Rightarrow> str" where
  "join sep [] = []"
| "join sep [p] = p"
| "join sep (p # ps) = p @ sep @ join sep ps"

text \<open>
  \<open>OutputCondition.__repr__\<close>; \<open>repr_str\<close> and \<open>repr_callable\<close> are the interpreter's
  \<open>repr\<close> of a string and of a function object.
\<close>

definition OutputCondition_repr ::
  "(str \<Rightarrow> str) \<Rightarrow> ((str \<Rightarrow> bool) \<Rightarrow> str) \<Rightarrow> OutputCondition \<Rightarrow> str" where
  "OutputCondition_repr repr_str repr_callable self =
    (let parts =
           (case contains self of None \<Rightarrow> [] | Some c \<Rightarrow> [ustr ''contains='' @ repr_str c])
         @ (case regex self of None \<Rightarrow> [] | Some r \<Rightarrow> [ustr ''regex='' @ repr_str r])
         @ (case predicate self of None \<Rightarrow> [] | Some p \<Rightarrow> [ustr ''predicate='' @ repr_callable p])
     in ustr ''OutputCondition('' @ join (ustr '', '') parts @ ustr '')'')"

record InputStep =
  payload :: str
  mark :: "str option"
  expect :: "OutputCondition option"
  expect_timeout :: "real option"
  delay :: real
  send_newline :: bool

record WaitStep =
  condition :: OutputCondition
  timeout :: real

text \<open>\<open>str.encode()\<close>: UTF-8; a surrogate code point cannot be encoded.\<close>

definition utf8_encode_char :: "nat \<Rightarrow> byte list option" where
  "utf8_encode_char c =
    (if c < 0x80 then Some [of_nat c]
     else if c < 0x800 then Some [of_nat (0xC0 + c div 64), of_nat (0x80 + c mod 64)]
     else if 0xD800 \<le> c \<and> c \<le> 0xDFFF then None
     else if c < 0x10000 then
       Some [of_nat (0xE0 + c div 4096), of_nat (0x80 + c div 64 mod 64), of_nat (0x80 + c mod 64)]
     else
       Some [of_nat (0xF0 + c div 262144), of_nat (0x80 + c div 4096 mod 64),
             of_nat (0x80 + c div 64 mod 64), of_nat (0x80 + c mod 64)])"

fun utf8_encode :: "str \<Rightarrow> error + byte list" where
  "utf8_encode [] = Inr []"
| "utf8_encode (c # cs) =
    (case utf8_encode_char c of
       None \<Rightarrow> Inl UnicodeEncodeError
     | Some bs \<Rightarrow> (case utf8_encode cs of Inl e \<Rightarrow> Inl e | Inr rest \<Rightarrow> Inr (bs @ rest)))"

text \<open>
  What a step of the driver changes: the bytes written to the PTY master and the
  keyframes of the registry. What it observes of the pump thread and of the clock while it
  runs is its environment: the recorder's offset and the wall clock at the mark, the value
  that \<open>buffer.wait_until\<close> returned, and the bytes in the buffer when \<open>as_text\<close> reads it
  for the message.
\<close>

record driver_state =
  pty_input :: "byte list"
  records :: "Keyframe list"

record step_env =
  recorder_offset :: int
  wall_clock :: real
  wait_until_result :: bool
  buffer_bytes :: "byte list"

text \<open>\<open>buffer.as_text()[-200:]\<close>: a slice of the decoded text, counted in code points.\<close>

definition buffer_tail :: "byte list \<Rightarrow> str" where
  "buffer_tail buf = (let text = utf8_decode_ignore buf in drop (length text - 200) text)"

definition run_input_step ::
  "(str \<Rightarrow> str) \<Rightarrow> ((str \<Rightarrow> bool) \<Rightarrow> str) \<Rightarrow> InputStep \<Rightarrow> step_env \<Rightarrow> driver_state
     \<Rightarrow> error + driver_state" where
  "run_input_step repr_str repr_callable step env st =
    (case utf8_encode (payload step) of
       Inl e \<Rightarrow> Inl e
     | Inr encoded \<Rightarrow>
         (let payload' = (if send_newline step \<and> \<not> (encoded \<noteq> [] \<and> last encoded = 0x0A)
                          then encoded @ [0x0A] else encoded);
              st1 = st\<lparr>pty_input := pty_input st @ payload'\<rparr>;
              st2 = (case mark step of
                       None \<Rightarrow> st1
                     | Some m \<Rightarrow>
                         if m = [] then st1
                         else st1\<lparr>records := records st1
                                @ [\<lparr>label = m, offset_kf = recorder_offset env,
                                    timestamp = wall_clock env\<rparr>]\<rparr>)
          in case expect step of
               None \<Rightarrow> Inr st2
             | Some cond \<Rightarrow>
                 if \<not> wait_until_result env then
                   Inl (TimeoutError
                         (ustr ''Condition not met for input step. Expectation: ''
                          @ OutputCondition_repr repr_str repr_callable cond
                          @ ustr '', buffer tail: '' @ buffer_tail (buffer_bytes env)))
                 else Inr st2))"

definition run_wait_step ::
  "(str \<Rightarrow> str) \<Rightarrow> ((str \<Rightarrow> bool) \<Rightarrow> str) \<Rightarrow> WaitStep \<Rightarrow> step_env \<Rightarrow> driver_state
     \<Rightarrow> error + driver_state" where
  "run_wait_step repr_str repr_callable step env st =
    (if \<not> wait_until_result env then
       Inl (TimeoutError
             (ustr ''Wait step timed out. Expectation: ''
              @ OutputCondition_repr repr_str repr_callable (condition step)
              @ ustr '', buffer tail: '' @ buffer_tail (buffer_bytes env)))
     else Inr st)"

section \<open>Notions used to state the properties\<close>

text \<open>
  The library's views of a pattern over a text, on the same left-to-right scan as
  \<open>re_sub\<close>: \<open>has_match\<close> is \<open>pattern.search(text) is not None\<close>, \<open>finditer\<close> lists the
  matched substrings in order, \<open>delete_matches\<close> is \<open>pattern.sub("", text)\<close>.
\<close>

fun has_match :: "(str \<Rightarrow> nat option) \<Rightarrow> str \<Rightarrow> bool" where
  "has_match pattern [] = False"
| "has_match pattern (c # cs) =
    ((case pattern (c # cs) of Some (Suc n) \<Rightarrow> True | _ \<Rightarrow> False) \<or> has_match pattern cs)"

fun finditer :: "(str \<Rightarrow> nat option) \<Rightarrow> str \<Rightarrow> str list" where
  "finditer pattern [] = []"
| "finditer pattern (c # cs) =
    (case pattern (c # cs) of
       Some (Suc n) \<Rightarrow> take (Suc n) (c # cs) # finditer pattern (drop n cs)
     | _ \<Rightarrow> finditer pattern cs)"

fun delete_matches :: "(str \<Rightarrow> nat option) \<Rightarrow> str \<Rightarrow> str" where
  "delete_matches pattern [] = []"
| "delete_matches pattern (c # cs) =
    (case pattern (c # cs) of
       Some (Suc n) \<Rightarrow> delete_matches pattern (drop n cs)
     | _ \<Rightarrow> c # delete_matches pattern cs)"

text \<open>
  \<open>weave gaps ms\<close> puts the texts \<open>ms\<close> between the texts \<open>gaps\<close>, one more of them than of
  \<open>ms\<close>: gap, match, gap, and so on.
\<close>

fun weave :: "'a list list \<Rightarrow> 'a list list \<Rightarrow> 'a list" where
  "weave [] ms = []"
| "weave (g # gs) [] = g"
| "weave (g # gs) (m # ms) = g @ m @ weave gs ms"

text \<open>The warning that a suppressed sequence leaves behind.\<close>

definition suppressed :: "string \<Rightarrow> str \<Rightarrow> ParseWarning" where
  "suppressed k seq =
    \<lparr>kind = ustr k, original = repr_escape seq, normalized = Some [], message = None\<rparr>"

text \<open>
  The chunks that successive \<open>read(chunk_size)\<close> calls return before the empty one that
  ends the loop, and the running count of raw bytes after each chunk whose normalized
  text is not empty.
\<close>

function chunks_of :: "nat \<Rightarrow> 'a list \<Rightarrow> 'a list list" where
  "chunks_of n xs = (if n = 0 \<or> xs = [] then [] else take n xs # chunks_of n (drop n xs))"
  by pat_completeness auto
termination
  by (relation "measure (\<lambda>(n, xs). length xs)") auto

definition read_chunks :: "int \<Rightarrow> byte list \<Rightarrow> byte list list" where
  "read_chunks chunk_size handle =
    (if chunk_size = - 1 then (if handle = [] then [] else [handle])
     else chunks_of (nat chunk_size) handle)"

fun chunk_offsets :: "TerminalCapabilities \<Rightarrow> int \<Rightarrow> byte list list \<Rightarrow> int list" where
  "chunk_offsets c consumed [] = []"
| "chunk_offsets c consumed (x # xs) =
    (if fst (normalize c x) = [] then [] else [consumed + int (length x)])
    @ chunk_offsets c (consumed + int (length x)) xs"

text \<open>
  A control sequence that the end of a text cuts off: a DEC-private sequence without its
  final \<open>h\<close> or \<open>l\<close> (ESC alone, \<open>ESC [\<close>, or \<open>ESC [ ?\<close> and parameters), or an OSC
  introducer \<open>ESC ]\<close> with no terminator behind it.
\<close>

definition partial_sequence :: "str \<Rightarrow> bool" where
  "partial_sequence tail \<longleftrightarrow>
    (case tail of
       [] \<Rightarrow> False
     | e # rest \<Rightarrow>
         e = 0x1B \<and>
         (case rest of
            [] \<Rightarrow> True
          | b # body \<Rightarrow>
              if b = 0x5B then
                (case body of
                   [] \<Rightarrow> True
                 | q # ps \<Rightarrow> q = 0x3F \<and> list_all (\<lambda>c. isdecimal c \<or> c = 0x3B) ps)
              else b = 0x5D \<and> osc_terminator body = None))"

text \<open>
  What the parser makes of a list of chunks, each normalized on its own: the texts that
  reach the emulator (\<open>fed\<close>), the states recorded behind each of them, and the warnings,
  each at the count of raw bytes before its chunk.
\<close>

definition fed :: "TerminalCapabilities \<Rightarrow> byte list list \<Rightarrow> str list" where
  "fed c chunks = filter (\<lambda>t. t \<noteq> []) (map (\<lambda>x. fst (normalize c x)) chunks)"

fun chunk_states ::
  "'vt vt_engine \<Rightarrow> TerminalCapabilities \<Rightarrow> 'vt \<Rightarrow> int \<Rightarrow> byte list list \<Rightarrow> ScreenState list" where
  "chunk_states engine c stream consumed [] = []"
| "chunk_states engine c stream consumed (x # xs) =
    (if fst (normalize c x) = [] then
       chunk_states engine c stream (consumed + int (length x)) xs
     else
       snapshot (vt_screen engine (vt_feed engine stream (fst (normalize c x))))
         (consumed + int (length x))
       # chunk_states engine c (vt_feed engine stream (fst (normalize c x)))
           (consumed + int (length x)) xs)"

fun chunk_warnings :: "TerminalCapabilities \<Rightarrow> int \<Rightarrow> byte list list \<Rightarrow> WarningEntry list" where
  "chunk_warnings c consumed [] = []"
| "chunk_warnings c consumed (x # xs) =
    map (\<lambda>w. \<lparr>offset_we = consumed, warning = w\<rparr>) (snd (normalize c x))
    @ chunk_warnings c (consumed + int (length x)) xs"

text \<open>
  Notions for \<open>wait_until\<close>. \<open>waited\<close>: at every one of these evaluations the predicate was
  false and the clock before the deadline, so that the loop went on to wait. A history
  gives the bytes in the buffer at every moment of the monotonic clock; \<open>holds_within\<close>
  says that the predicate holds on the decoded buffer at some moment within \<open>t\<close> of
  \<open>start\<close>, and \<open>sampled\<close> that the observations of a call are taken from the history, in
  the order of the clock and not before the call starts.
\<close>

definition waited :: "(str \<Rightarrow> bool) \<Rightarrow> real \<Rightarrow> observation list \<Rightarrow> bool" where
  "waited p deadline obs \<longleftrightarrow>
     list_all (\<lambda>ob. \<not> p (utf8_decode_ignore (seen ob)) \<and> monotonic ob < deadline) obs"

definition holds_within :: "(str \<Rightarrow> bool) \<Rightarrow> (real \<Rightarrow> byte list) \<Rightarrow> real \<Rightarrow> real \<Rightarrow> bool" where
  "holds_within p history start t \<longleftrightarrow>
     (\<exists>m. start \<le> m \<and> m \<le> start + t \<and> p (utf8_decode_ignore (history m)))"

definition sampled :: "(real \<Rightarrow> byte list) \<Rightarrow> wait_env \<Rightarrow> bool" where
  "sampled history env \<longleftrightarrow>
     call_start env \<le> (case observations env of [] \<Rightarrow> call_start env | ob # _ \<Rightarrow> monotonic ob)
     \<and> sorted (map monotonic (observations env))
     \<and> list_all (\<lambda>ob. seen ob = history (monotonic ob)) (observations env)"

text \<open>
  A stand-in for the emulator, used to run the parser on concrete files: it types every
  character it is fed on row 0 and moves the cursor behind it.
\<close>

definition typewriter :: "(int \<times> int \<times> str) vt_engine" where
  "typewriter =
    \<lparr>vt_new = (\<lambda>columns_arg lines_arg. (columns_arg, lines_arg, [])),
     vt_feed = (\<lambda>(c, l, typed) t. (c, l, typed @ t)),
     vt_screen = (\<lambda>(c, l, typed).
        \<lparr>lines = l, columns = c,
         buffer = (\<lambda>row. if row = 0
                          then Some (\<lambda>col. if col < length typed
                                            then Some (pyte_Char_init [typed ! col]) else None)
                          else None),
         cursor_x = int (length typed), cursor_y = 0\<rparr>)\<rparr>"

declare chunks_of.simps [simp del]
declare parse_loop.simps [simp del]

section \<open>Exit status\<close>

lemma wait_exited:
  "wait (Some (Exited (Some rc))) =
     Inr (if rc < 0 then \<lparr>returncode = None, signal = Some \<bar>rc\<bar>\<rparr>
          else \<lparr>returncode = Some rc, signal = None\<rparr>)"
  by (simp add: wait_def)

text \<open>
  Claim C7. For every returncode \<open>rc\<close> that \<open>PtySessionRunner.wait\<close> observes, a
  negative \<open>rc\<close> gives a status with no returncode and signal \<open>|rc|\<close>, a non-negative
  one gives returncode \<open>rc\<close> and no signal; whatever \<open>wait\<close> returns has at most one of
  the two fields present; and \<open>succeeded\<close> holds exactly for returncode 0 with no signal.
\<close>

theorem wait_exit_status:
  "(rc < 0 \<longrightarrow> wait (Some (Exited (Some rc))) = Inr \<lparr>returncode = None, signal = Some \<bar>rc\<bar>\<rparr>)
   \<and> (0 \<le> rc \<longrightarrow> wait (Some (Exited (Some rc))) = Inr \<lparr>returncode = Some rc, signal = None\<rparr>)
   \<and> (wait p = Inr st \<longrightarrow> returncode st = None \<or> signal st = None)
   \<and> (succeeded st' \<longleftrightarrow> returncode st' = Some 0 \<and> signal st' = None)
   \<and> (wait (Some (Exited (Some rc))) = Inr st'' \<longrightarrow> (succeeded st'' \<longleftrightarrow> rc = 0))"
proof -
  have one: "returncode st = None \<or> signal st = None" if "wait p = Inr st"
    using that
    by (auto simp: wait_def split: option.splits Popen.splits if_splits)
  have ok: "succeeded st'' \<longleftrightarrow> rc = 0" if "wait (Some (Exited (Some rc))) = Inr st''"
    using that by (auto simp: wait_exited succeeded_def split: if_splits)
  show ?thesis
    using one ok by (simp add: wait_exited succeeded_def)
qed

theorem wait_exit_status_witness:
  "wait (Some (Exited (Some (- 9)))) = Inr \<lparr>returncode = None, signal = Some 9\<rparr>
   \<and> wait (Some (Exited (Some 3))) = Inr \<lparr>returncode = Some 3, signal = None\<rparr>
   \<and> \<not> succeeded \<lparr>returncode = Some 3, signal = None\<rparr>
   \<and> succeeded \<lparr>returncode = Some 0, signal = None\<rparr>"
  using wait_exit_status [of "- 9" "Some (Exited (Some 3))" "\<lparr>returncode = Some 3, signal = None\<rparr>"
      "\<lparr>returncode = Some 0, signal = None\<rparr>" "\<lparr>returncode = None, signal = Some 9\<rparr>"]
    wait_exit_status [of 3 "Some (Exited (Some 3))" "\<lparr>returncode = Some 3, signal = None\<rparr>"
      "\<lparr>returncode = Some 3, signal = None\<rparr>" "\<lparr>returncode = Some 3, signal = None\<rparr>"]
  by simp

section \<open>The stream recorder\<close>

lemma append_all_open:
  "\<not> closed r \<Longrightarrow>
   append_all r chunks =
     Inr (map (\<lambda>i. offset_rec r + int (length (concat (take (Suc i) chunks)))) [0..<length chunks],
          r\<lparr>fileobj := fileobj r @ concat chunks,
            offset_rec := offset_rec r + int (length (concat chunks))\<rparr>)"
proof (induction chunks arbitrary: r)
  case Nil
  then show ?case by simp
next
  case (Cons c cs)
  show ?case
  proof (cases "c = []")
    case True
    then show ?thesis
      using Cons.IH [OF Cons.prems]
      by (simp add: append_rec_def map_upt_Suc del: upt_Suc)
  next
    case False
    let ?r = "r\<lparr>fileobj := fileobj r @ c, offset_rec := offset_rec r + int (length c)\<rparr>"
    have "\<not> closed ?r" using Cons.prems by simp
    from Cons.IH [OF this] False Cons.prems show ?thesis
      by (simp add: append_rec_def map_upt_Suc add.assoc del: upt_Suc)
  qed
qed

lemma length_concat_sum: "int (length (concat xs)) = (\<Sum>c\<leftarrow>xs. int (length c))"
  by (induction xs) simp_all

text \<open>
  Claim C3. Any sequence of \<open>append\<close> calls on a fresh recorder succeeds; the final offset
  is the sum of the chunk lengths; the bytes written to the file at the recorder's path,
  also after \<open>close\<close>, are the chunks concatenated in call order; the i-th call returns the
  offset after it. Appending the empty chunk changes nothing and returns the current
  offset; appending a non-empty chunk to an open recorder returns the new offset.
\<close>

theorem recorder_appends:
  "(\<exists>rets r. append_all (AnsiStreamRecorder_init p) chunks = Inr (rets, r)
      \<and> offset_rec r = (\<Sum>c\<leftarrow>chunks. int (length c))
      \<and> path r = p \<and> fileobj r = concat chunks \<and> fileobj (close r) = concat chunks
      \<and> length rets = length chunks
      \<and> (\<forall>i<length chunks. rets ! i = (\<Sum>c\<leftarrow>take (Suc i) chunks. int (length c))))
   \<and> append_rec [] r0 = Inr (offset_rec r0, r0)
   \<and> (chunk \<noteq> [] \<and> \<not> closed r0 \<longrightarrow>
        append_rec chunk r0 =
          Inr (offset_rec r0 + int (length chunk),
               r0\<lparr>fileobj := fileobj r0 @ chunk, offset_rec := offset_rec r0 + int (length chunk)\<rparr>))"
proof -
  have "\<not> closed (AnsiStreamRecorder_init p)"
    by (simp add: AnsiStreamRecorder_init_def)
  from append_all_open [OF this, of chunks]
  have "\<exists>rets r. append_all (AnsiStreamRecorder_init p) chunks = Inr (rets, r)
      \<and> offset_rec r = (\<Sum>c\<leftarrow>chunks. int (length c))
      \<and> path r = p \<and> fileobj r = concat chunks \<and> fileobj (close r) = concat chunks
      \<and> length rets = length chunks
      \<and> (\<forall>i<length chunks. rets ! i = (\<Sum>c\<leftarrow>take (Suc i) chunks. int (length c)))"
    by (simp add: AnsiStreamRecorder_init_def close_def length_concat_sum del: upt_Suc)
  moreover have "append_rec [] r0 = Inr (offset_rec r0, r0)"
    by (simp add: append_rec_def)
  moreover have "chunk \<noteq> [] \<and> \<not> closed r0 \<longrightarrow>
        append_rec chunk r0 =
          Inr (offset_rec r0 + int (length chunk),
               r0\<lparr>fileobj := fileobj r0 @ chunk, offset_rec := offset_rec r0 + int (length chunk)\<rparr>)"
    by (simp add: append_rec_def)
  ultimately show ?thesis by blast
qed

theorem recorder_appends_witness:
  "append_all (AnsiStreamRecorder_init (ustr ''ansi.bin''))
      [[0x68, 0x65, 0x6C, 0x6C, 0x6F], [], [0x20, 0x77, 0x6F, 0x72, 0x6C, 0x64]] =
     Inr ([5, 5, 11],
          \<lparr>path = ustr ''ansi.bin'',
           fileobj = [0x68, 0x65, 0x6C, 0x6C, 0x6F, 0x20, 0x77, 0x6F, 0x72, 0x6C, 0x64],
           closed = False, offset_rec = 11\<rparr>)
   \<and> append_rec [0x21] \<lparr>path = [], fileobj = [0x68], closed = False, offset_rec = 1\<rparr> =
       Inr (2, \<lparr>path = [], fileobj = [0x68, 0x21], closed = False, offset_rec = 2\<rparr>)"
  using recorder_appends [of "ustr ''ansi.bin''"
      "[[0x68, 0x65, 0x6C, 0x6C, 0x6F], [], [0x20, 0x77, 0x6F, 0x72, 0x6C, 0x64]]"
      "\<lparr>path = [], fileobj = [0x68], closed = False, offset_rec = 1\<rparr>" "[0x21]"]
  by (simp add: AnsiStreamRecorder_init_def append_rec_def)

section \<open>Keyframe correlation\<close>

lemma fold_other_label:
  "l \<notin> label ` set ks \<Longrightarrow>
   fold (\<lambda>frame mapping.
           case locate_state states (offset_kf frame) of
             Some candidate \<Rightarrow> mapping(label frame \<mapsto> candidate)
           | None \<Rightarrow> mapping) ks m l = m l"
  by (induction ks arbitrary: m) (auto split: option.splits)

lemma fold_dom:
  "states \<noteq> [] \<Longrightarrow>
   dom (fold (\<lambda>frame mapping.
           case locate_state states (offset_kf frame) of
             Some candidate \<Rightarrow> mapping(label frame \<mapsto> candidate)
           | None \<Rightarrow> mapping) ks m) = dom m \<union> label ` set ks"
  by (induction ks arbitrary: m) (auto simp: locate_state_def split: option.splits)

lemma locate_state_first:
  assumes "states \<noteq> []"
  shows "\<exists>S. locate_state states off = Some S \<and>
     ((\<exists>i<length states. S = states ! i \<and> off \<le> offset (states ! i)
          \<and> (\<forall>j<i. offset (states ! j) < off))
      \<or> ((\<forall>s\<in>set states. offset s < off) \<and> S = last states))"
proof (cases "find (\<lambda>state. offset state \<ge> off) states")
  case None
  then have "\<forall>s\<in>set states. offset s < off"
    by (auto simp: find_None_iff not_le)
  then show ?thesis
    using None assms by (simp add: locate_state_def)
next
  case (Some S)
  then have "\<exists>i<length states. S = states ! i \<and> off \<le> offset (states ! i)
          \<and> (\<forall>j<i. offset (states ! j) < off)"
    by (auto simp: find_Some_iff not_le)
  then show ?thesis
    using Some by (simp add: locate_state_def)
qed

text \<open>
  Claim C1. With no states the mapping is empty. With at least one state, the labels
  mapped are exactly the labels of the keyframes, and a keyframe \<open>K\<close> that no later
  keyframe shares its label with (the last one wins) is mapped to the first state, in
  sequence order, whose offset is at least \<open>K\<close>'s offset, and to the last state when no
  state has such an offset.
\<close>

theorem extract_keyframes_correlates:
  "extract_keyframes [] keyframes = Map.empty
   \<and> (states \<noteq> [] \<longrightarrow>
        dom (extract_keyframes states keyframes) = label ` set keyframes
        \<and> (keyframes = pre @ K # post \<and> (\<forall>k\<in>set post. label k \<noteq> label K) \<longrightarrow>
             (\<exists>S. extract_keyframes states keyframes (label K) = Some S
               \<and> ((\<exists>i<length states. S = states ! i \<and> offset_kf K \<le> offset (states ! i)
                      \<and> (\<forall>j<i. offset (states ! j) < offset_kf K))
                   \<or> ((\<forall>s\<in>set states. offset s < offset_kf K) \<and> S = last states)))))"
proof -
  let ?f = "\<lambda>frame mapping.
           case locate_state states (offset_kf frame) of
             Some candidate \<Rightarrow> mapping(label frame \<mapsto> candidate)
           | None \<Rightarrow> mapping"
  have main: "\<exists>S. extract_keyframes states keyframes (label K) = Some S
               \<and> ((\<exists>i<length states. S = states ! i \<and> offset_kf K \<le> offset (states ! i)
                      \<and> (\<forall>j<i. offset (states ! j) < offset_kf K))
                   \<or> ((\<forall>s\<in>set states. offset s < offset_kf K) \<and> S = last states))"
    if ne: "states \<noteq> []" and split: "keyframes = pre @ K # post"
      and last: "\<forall>k\<in>set post. label k \<noteq> label K"
  proof -
    obtain S where S: "locate_state states (offset_kf K) = Some S"
      and first: "(\<exists>i<length states. S = states ! i \<and> offset_kf K \<le> offset (states ! i)
                      \<and> (\<forall>j<i. offset (states ! j) < offset_kf K))
                   \<or> ((\<forall>s\<in>set states. offset s < offset_kf K) \<and> S = last states)"
      using locate_state_first [OF ne] by blast
    have "label K \<notin> label ` set post" using last by auto
    then have "fold ?f keyframes Map.empty (label K) = (?f K (fold ?f pre Map.empty)) (label K)"
      unfolding split by (simp add: fold_other_label)
    also have "\<dots> = Some S" using S by simp
    finally show ?thesis using ne first by (auto simp: extract_keyframes_def)
  qed
  have "dom (extract_keyframes states keyframes) = label ` set keyframes" if "states \<noteq> []"
    using that fold_dom [OF that, of keyframes Map.empty] by (simp add: extract_keyframes_def)
  with main show ?thesis
    by (simp add: extract_keyframes_def)
qed

theorem extract_keyframes_correlates_witness:
  "extract_keyframes
     [\<lparr>offset = 5, cursor_row = 0, cursor_col = 5, cells = []\<rparr>,
      \<lparr>offset = 11, cursor_row = 0, cursor_col = 11, cells = []\<rparr>]
     [\<lparr>label = ustr ''a'', offset_kf = 20, timestamp = 0\<rparr>,
      \<lparr>label = ustr ''b'', offset_kf = 12, timestamp = 1\<rparr>,
      \<lparr>label = ustr ''a'', offset_kf = 3, timestamp = 2\<rparr>] (ustr ''a'')
     = Some \<lparr>offset = 5, cursor_row = 0, cursor_col = 5, cells = []\<rparr>
   \<and> extract_keyframes
     [\<lparr>offset = 5, cursor_row = 0, cursor_col = 5, cells = []\<rparr>,
      \<lparr>offset = 11, cursor_row = 0, cursor_col = 11, cells = []\<rparr>]
     [\<lparr>label = ustr ''a'', offset_kf = 20, timestamp = 0\<rparr>,
      \<lparr>label = ustr ''b'', offset_kf = 12, timestamp = 1\<rparr>,
      \<lparr>label = ustr ''a'', offset_kf = 3, timestamp = 2\<rparr>] (ustr ''b'')
     = Some \<lparr>offset = 11, cursor_row = 0, cursor_col = 11, cells = []\<rparr>"
  using extract_keyframes_correlates
    [of "[\<lparr>label = ustr ''a'', offset_kf = 20, timestamp = 0\<rparr>,
          \<lparr>label = ustr ''b'', offset_kf = 12, timestamp = 1\<rparr>,
          \<lparr>label = ustr ''a'', offset_kf = 3, timestamp = 2\<rparr>]"
        "[\<lparr>offset = 5, cursor_row = 0, cursor_col = 5, cells = []\<rparr>,
          \<lparr>offset = 11, cursor_row = 0, cursor_col = 11, cells = []\<rparr>]"
        "[\<lparr>label = ustr ''a'', offset_kf = 20, timestamp = 0\<rparr>,
          \<lparr>label = ustr ''b'', offset_kf = 12, timestamp = 1\<rparr>]"
        "\<lparr>label = ustr ''a'', offset_kf = 3, timestamp = 2\<rparr>" "[]"]
  by (simp add: extract_keyframes_def locate_state_def ustr_def)

section \<open>The normalizer\<close>

lemma re_sub_keep_aux:
  "repl = (\<lambda>seq ws. (seq, ws)) \<Longrightarrow> re_sub pattern repl t ws = (t, ws)"
  by (induction pattern repl t ws rule: re_sub.induct)
     (auto split: option.splits nat.splits)

lemma re_sub_keep: "re_sub pattern (\<lambda>seq ws. (seq, ws)) t ws = (t, ws)"
  by (simp add: re_sub_keep_aux)

lemma re_sub_delete_aux:
  "repl = (\<lambda>seq ws. ([], ws @ [f seq])) \<Longrightarrow>
   re_sub pattern repl t ws = (delete_matches pattern t, ws @ map f (finditer pattern t))"
  by (induction pattern repl t ws rule: re_sub.induct)
     (auto split: option.splits nat.splits)

lemma re_sub_delete:
  "re_sub pattern (\<lambda>seq ws. ([], ws @ [f seq])) t ws =
     (delete_matches pattern t, ws @ map f (finditer pattern t))"
  by (simp add: re_sub_delete_aux)

lemma re_sub_no_match:
  "\<not> has_match pattern t \<Longrightarrow> re_sub pattern repl t ws = (t, ws)"
  by (induction pattern repl t ws rule: re_sub.induct)
     (auto split: option.splits nat.splits)

text \<open>
  What the scan deletes and what it keeps: the text is the matches woven into the gaps
  between them, in order, and deleting the matches leaves the gaps.
\<close>

lemma scan_decomposition:
  "\<exists>gaps. length gaps = Suc (length (finditer pattern t))
      \<and> weave gaps (finditer pattern t) = t
      \<and> concat gaps = delete_matches pattern t"
proof (induction pattern t rule: finditer.induct)
  case (1 pattern)
  have "length [[]] = Suc (length (finditer pattern []))
      \<and> weave [[]] (finditer pattern []) = [] \<and> concat [[]] = delete_matches pattern []"
    by simp
  then show ?case by blast
next
  case (2 pattern c cs)
  show ?case
  proof (cases "\<exists>n. pattern (c # cs) = Some (Suc n)")
    case True
    then obtain n where m: "pattern (c # cs) = Some (Suc n)" by blast
    from "2.IH"(3) [OF m] obtain gaps where
      g: "length gaps = Suc (length (finditer pattern (drop n cs)))"
        "weave gaps (finditer pattern (drop n cs)) = drop n cs"
        "concat gaps = delete_matches pattern (drop n cs)"
      by blast
    have "length ([] # gaps) = Suc (length (finditer pattern (c # cs)))
        \<and> weave ([] # gaps) (finditer pattern (c # cs)) = c # cs
        \<and> concat ([] # gaps) = delete_matches pattern (c # cs)"
      using g m by simp
    then show ?thesis by blast
  next
    case False
    have nm: "pattern (c # cs) = None \<or> pattern (c # cs) = Some 0"
    proof (cases "pattern (c # cs)")
      case None
      then show ?thesis by simp
    next
      case (Some k)
      with False show ?thesis by (cases k) auto
    qed
    have same: "finditer pattern (c # cs) = finditer pattern cs"
      "delete_matches pattern (c # cs) = c # delete_matches pattern cs"
      using nm by auto
    have "\<exists>gaps. length gaps = Suc (length (finditer pattern cs))
        \<and> weave gaps (finditer pattern cs) = cs
        \<and> concat gaps = delete_matches pattern cs"
      using nm "2.IH"(1) "2.IH"(2) by blast
    then obtain g gs where
      g: "length (g # gs) = Suc (length (finditer pattern cs))"
        "weave (g # gs) (finditer pattern cs) = cs"
        "concat (g # gs) = delete_matches pattern cs"
      by (metis length_Suc_conv)
    have "weave ((c # g) # gs) (finditer pattern cs) = c # weave (g # gs) (finditer pattern cs)"
      by (cases "finditer pattern cs") simp_all
    then have "length ((c # g) # gs) = Suc (length (finditer pattern (c # cs)))
        \<and> weave ((c # g) # gs) (finditer pattern (c # cs)) = c # cs
        \<and> concat ((c # g) # gs) = delete_matches pattern (c # cs)"
      using g same by simp
    then show ?thesis by blast
  qed
qed

lemma dec_repl_keep: "supports_dec_private c \<Longrightarrow> dec_repl c = (\<lambda>seq ws. (seq, ws))"
  by (simp add: dec_repl_def fun_eq_iff)

lemma dec_repl_delete:
  "\<not> supports_dec_private c \<Longrightarrow> dec_repl c = (\<lambda>seq ws. ([], ws @ [suppressed ''dec-private'' seq]))"
  by (simp add: dec_repl_def fun_eq_iff suppressed_def)

lemma osc_repl_keep: "allow_osc c \<Longrightarrow> osc_repl c = (\<lambda>seq ws. (seq, ws))"
  by (simp add: osc_repl_def fun_eq_iff)

lemma osc_repl_delete:
  "\<not> allow_osc c \<Longrightarrow> osc_repl c = (\<lambda>seq ws. ([], ws @ [suppressed ''osc-suppressed'' seq]))"
  by (simp add: osc_repl_def fun_eq_iff suppressed_def)

lemma normalize_free:
  "\<not> has_match DEC_PRIVATE_RE (utf8_decode_ignore x) \<Longrightarrow>
   \<not> has_match OSC_RE (utf8_decode_ignore x) \<Longrightarrow>
   normalize c x = (utf8_decode_ignore x, [])"
  by (simp add: normalize_def re_sub_no_match)

lemma normalize_two_passes:
  "normalize c chunk =
     (let text = utf8_decode_ignore chunk;
          text1 = (if supports_dec_private c then text else delete_matches DEC_PRIVATE_RE text);
          text2 = (if allow_osc c then text1 else delete_matches OSC_RE text1)
      in (text2,
          (if supports_dec_private c then []
           else map (suppressed ''dec-private'') (finditer DEC_PRIVATE_RE text))
          @ (if allow_osc c then []
             else map (suppressed ''osc-suppressed'') (finditer OSC_RE text1))))"
  by (simp add: normalize_def Let_def dec_repl_keep dec_repl_delete osc_repl_keep osc_repl_delete
      re_sub_keep re_sub_delete)

lemmas pattern_eval =
  DEC_PRIVATE_RE_def OSC_RE_def isdecimal_def decimal_ranges_def is_continuation_byte_def

lemmas escape_eval =
  suppressed_def repr_escape_def ascii_escape_unichar_def u_escape_def hexdigit_def ustr_def

text \<open>
  Claim C4, as the code has it. With both capabilities false, \<open>normalize\<close> deletes every
  DEC-private match from the decoded text and then every OSC match from the text that this
  leaves; it emits one warning per deleted match, the DEC-private ones first and each
  group in text order, of kind \<open>dec-private\<close> or \<open>osc-suppressed\<close> and quoting the deleted
  sequence; everything else passes unchanged.
\<close>

theorem normalize_suppresses:
  "normalize \<lparr>supports_dec_private = False, allow_osc = False\<rparr> chunk =
     (delete_matches OSC_RE (delete_matches DEC_PRIVATE_RE (utf8_decode_ignore chunk)),
      map (suppressed ''dec-private'') (finditer DEC_PRIVATE_RE (utf8_decode_ignore chunk))
      @ map (suppressed ''osc-suppressed'')
          (finditer OSC_RE (delete_matches DEC_PRIVATE_RE (utf8_decode_ignore chunk))))"
  by (simp add: normalize_two_passes Let_def)

theorem normalize_suppresses_witness:
  "normalize \<lparr>supports_dec_private = False, allow_osc = False\<rparr>
     [0x1B, 0x5B, 0x3F, 0x32, 0x35, 0x6C, 0x48, 0x69, 0x1B, 0x5D, 0x38, 0x3B, 0x3B, 0x1B, 0x5C] =
     ([0x48, 0x69],
      [\<lparr>kind = ustr ''dec-private'',
        original = [0x5C, 0x75, 0x30, 0x30, 0x31, 0x62] @ ustr ''[?25l'',
        normalized = Some [], message = None\<rparr>,
       \<lparr>kind = ustr ''osc-suppressed'',
        original = [0x5C, 0x75, 0x30, 0x30, 0x31, 0x62] @ ustr '']8;;''
                   @ [0x5C, 0x75, 0x30, 0x30, 0x31, 0x62, 0x5C, 0x5C],
        normalized = Some [], message = None\<rparr>])"
  using normalize_suppresses
    [of "[0x1B, 0x5B, 0x3F, 0x32, 0x35, 0x6C, 0x48, 0x69, 0x1B, 0x5D, 0x38, 0x3B, 0x3B, 0x1B, 0x5C]"]
  by (simp add: pattern_eval escape_eval)

text \<open>
  The claim counts the sequences of the input. Here the input holds one DEC-private
  sequence and no OSC sequence; deleting the first brings ESC and \<open>]\<close> together, the second
  pass deletes the rest as an OSC sequence, and two warnings are emitted.
\<close>

theorem normalize_suppresses_counterexample:
  "finditer DEC_PRIVATE_RE
     (utf8_decode_ignore [0x1B, 0x1B, 0x5B, 0x3F, 0x31, 0x68, 0x5D, 0x66, 0x6F, 0x6F, 0x07]) =
     [[0x1B, 0x5B, 0x3F, 0x31, 0x68]]
   \<and> finditer OSC_RE
     (utf8_decode_ignore [0x1B, 0x1B, 0x5B, 0x3F, 0x31, 0x68, 0x5D, 0x66, 0x6F, 0x6F, 0x07]) = []
   \<and> normalize \<lparr>supports_dec_private = False, allow_osc = False\<rparr>
       [0x1B, 0x1B, 0x5B, 0x3F, 0x31, 0x68, 0x5D, 0x66, 0x6F, 0x6F, 0x07] =
       ([], [suppressed ''dec-private'' [0x1B, 0x5B, 0x3F, 0x31, 0x68],
             suppressed ''osc-suppressed'' [0x1B, 0x5D, 0x66, 0x6F, 0x6F, 0x07]])
   \<and> normalize \<lparr>supports_dec_private = False, allow_osc = False\<rparr>
       [0x1B, 0x1B, 0x5B, 0x3F, 0x31, 0x68, 0x5D, 0x66, 0x6F, 0x6F, 0x07] \<noteq>
       ([0x1B, 0x5D, 0x66, 0x6F, 0x6F, 0x07], [suppressed ''dec-private'' [0x1B, 0x5B, 0x3F, 0x31, 0x68]])"
  by (simp add: normalize_def dec_repl_def osc_repl_def pattern_eval suppressed_def)

text \<open>
  Claim C5, as the code has it. When the decoded text of a chunk holds no DEC-private and
  no OSC match, \<open>normalize\<close> returns the decoded text and no warning, whatever the
  capabilities.
\<close>

theorem normalize_no_sequences:
  "\<not> has_match DEC_PRIVATE_RE (utf8_decode_ignore x) \<Longrightarrow>
   \<not> has_match OSC_RE (utf8_decode_ignore x) \<Longrightarrow>
   normalize c x = (utf8_decode_ignore x, [])"
  by (rule normalize_free)

theorem normalize_no_sequences_witness:
  "normalize \<lparr>supports_dec_private = False, allow_osc = False\<rparr>
     [0x1B, 0x5B, 0x33, 0x31, 0x6D, 0xC3, 0xA9, 0x1B, 0x5D, 0x30, 0x3B, 0x1B, 0x5B, 0x3F, 0x32] =
     ([0x1B, 0x5B, 0x33, 0x31, 0x6D, 0xE9, 0x1B, 0x5D, 0x30, 0x3B, 0x1B, 0x5B, 0x3F, 0x32], [])"
  using normalize_no_sequences
    [of "[0x1B, 0x5B, 0x33, 0x31, 0x6D, 0xC3, 0xA9, 0x1B, 0x5D, 0x30, 0x3B, 0x1B, 0x5B, 0x3F, 0x32]"
        "\<lparr>supports_dec_private = False, allow_osc = False\<rparr>"]
  by (simp add: pattern_eval)

text \<open>
  The bytes of this chunk hold no sequence (an invalid byte stands after \<open>ESC [ ?\<close>), but
  the decoder drops that byte, and the decoded text is a DEC-private sequence.
\<close>

theorem normalize_no_sequences_counterexample:
  "\<not> has_match DEC_PRIVATE_RE (map unat [0x1B, 0x5B, 0x3F, 0xFF, 0x32, 0x35, 0x6C :: byte])
   \<and> \<not> has_match OSC_RE (map unat [0x1B, 0x5B, 0x3F, 0xFF, 0x32, 0x35, 0x6C :: byte])
   \<and> utf8_decode_ignore [0x1B, 0x5B, 0x3F, 0xFF, 0x32, 0x35, 0x6C] =
       [0x1B, 0x5B, 0x3F, 0x32, 0x35, 0x6C]
   \<and> normalize \<lparr>supports_dec_private = False, allow_osc = False\<rparr>
       [0x1B, 0x5B, 0x3F, 0xFF, 0x32, 0x35, 0x6C] =
       ([], [suppressed ''dec-private'' [0x1B, 0x5B, 0x3F, 0x32, 0x35, 0x6C]])"
  by (simp add: normalize_def dec_repl_def osc_repl_def pattern_eval suppressed_def)

section \<open>The replay parser\<close>

lemma read_chunks_empty:
  "- 1 \<le> n \<Longrightarrow> read n handle = Inr ([], rest) \<Longrightarrow> read_chunks n handle = []"
  by (auto simp: read_def read_chunks_def chunks_of.simps [of _ handle] split: if_splits)

lemma read_chunks_step:
  "- 1 \<le> n \<Longrightarrow> read n handle = Inr (raw, rest) \<Longrightarrow> raw \<noteq> [] \<Longrightarrow>
   read_chunks n handle = raw # read_chunks n rest"
  by (auto simp: read_def read_chunks_def chunks_of.simps [of _ handle] chunks_of.simps [of _ "[]"]
      split: if_splits)

lemma read_ok: "- 1 \<le> n \<Longrightarrow> \<exists>raw rest. read n handle = Inr (raw, rest)"
  by (simp add: read_def)

lemma parse_loop_offsets:
  "- 1 \<le> n \<Longrightarrow>
   \<exists>self' stream' snaps.
     parse_loop engine n handle self stream acc = Inr (self', stream', acc @ snaps)
     \<and> map offset snaps = chunk_offsets (handler self) (bytes_consumed self) (read_chunks n handle)"
proof (induction engine n handle self stream acc rule: parse_loop.induct)
  case (1 engine n handle self stream acc)
  obtain raw rest where rd: "read n handle = Inr (raw, rest)"
    using read_ok [OF "1.prems"] by blast
  show ?case
  proof (cases "raw = []")
    case True
    then show ?thesis
      using rd read_chunks_empty [OF "1.prems", of handle rest]
      by (simp add: parse_loop.simps [of engine n handle])
  next
    case False
    obtain normalized warns where nm: "normalize (handler self) raw = (normalized, warns)"
      by (cases "normalize (handler self) raw")
    define self1 where "self1 = self\<lparr>collector := collector self
        @ map (\<lambda>w. \<lparr>offset_we = bytes_consumed self, warning = w\<rparr>) warns\<rparr>"
    define self2 where "self2 = self1\<lparr>bytes_consumed := bytes_consumed self1 + int (length raw)\<rparr>"
    have h2: "handler self2 = handler self"
      and b2: "bytes_consumed self2 = bytes_consumed self + int (length raw)"
      by (simp_all add: self1_def self2_def)
    have cs: "read_chunks n handle = raw # read_chunks n rest"
      using read_chunks_step [OF "1.prems" rd False] .
    show ?thesis
    proof (cases "normalized = []")
      case True
      have step: "parse_loop engine n handle self stream acc =
          parse_loop engine n rest self2 stream acc"
        using rd False nm True
        by (simp add: parse_loop.simps [of engine n handle] self1_def self2_def Let_def)
      from "1.IH"(1) [OF rd refl False nm [symmetric] refl self1_def self2_def True "1.prems"]
      obtain self' stream' snaps where
        "parse_loop engine n rest self2 stream acc = Inr (self', stream', acc @ snaps)"
        "map offset snaps = chunk_offsets (handler self2) (bytes_consumed self2) (read_chunks n rest)"
        by blast
      then show ?thesis
        using True nm by (simp add: step cs h2 b2)
    next
      case nonempty: False
      define stream1 where "stream1 = vt_feed engine stream normalized"
      have step: "parse_loop engine n handle self stream acc =
          parse_loop engine n rest self2 stream1
            (acc @ [snapshot (vt_screen engine stream1) (bytes_consumed self2)])"
        using rd False nm nonempty
        by (simp add: parse_loop.simps [of engine n handle] self1_def self2_def stream1_def Let_def)
      from "1.IH"(2) [OF rd refl False nm [symmetric] refl self1_def self2_def nonempty stream1_def "1.prems"]
      obtain self' stream' snaps where
        "parse_loop engine n rest self2 stream1
            (acc @ [snapshot (vt_screen engine stream1) (bytes_consumed self2)])
          = Inr (self', stream', (acc @ [snapshot (vt_screen engine stream1) (bytes_consumed self2)]) @ snaps)"
        and offs: "map offset snaps = chunk_offsets (handler self2) (bytes_consumed self2) (read_chunks n rest)"
        by blast
      then have "parse_loop engine n handle self stream acc =
          Inr (self', stream', acc @ (snapshot (vt_screen engine stream1) (bytes_consumed self2) # snaps))"
        by (simp add: step)
      moreover have "map offset (snapshot (vt_screen engine stream1) (bytes_consumed self2) # snaps)
          = chunk_offsets (handler self) (bytes_consumed self) (read_chunks n handle)"
        using offs nm nonempty by (simp add: cs h2 b2 snapshot_def Let_def)
      ultimately show ?thesis by blast
    qed
  qed
qed

lemma upt_Suc_shift: "[0..<Suc n] = 0 # map Suc [0..<n]"
  by (metis map_Suc_upt upt_conv_Cons zero_less_Suc)

lemma chunk_offsets_closed:
  "chunk_offsets c k cs =
     [k + int (length (concat (take (Suc i) cs))). i \<leftarrow> [0..<length cs], fst (normalize c (cs ! i)) \<noteq> []]"
proof (induction cs arbitrary: k)
  case Nil
  then show ?case by simp
next
  case (Cons x xs)
  show ?case
    unfolding length_Cons upt_Suc_shift
    by (simp add: Cons.IH o_def add.assoc cong: if_cong)
qed

lemma chunk_offsets_sorted:
  "sorted (chunk_offsets c k cs) \<and> (\<forall>x\<in>set (chunk_offsets c k cs). k \<le> x)"
proof (induction cs arbitrary: k)
  case Nil
  then show ?case by simp
next
  case (Cons x xs)
  have "\<forall>y\<in>set (chunk_offsets c (k + int (length x)) xs). k + int (length x) \<le> y"
    using Cons.IH by blast
  then show ?case
    using Cons.IH [of "k + int (length x)"] by (auto simp: sorted_append)
qed

lemma chunks_of_pieces:
  "(0 < n \<longrightarrow> concat (chunks_of n xs) = xs)
   \<and> (\<forall>c\<in>set (chunks_of n xs). c \<noteq> [] \<and> length c \<le> n)"
proof (induction n xs rule: chunks_of.induct)
  case (1 n xs)
  show ?case
  proof (cases "n = 0 \<or> xs = []")
    case True
    then show ?thesis by (auto simp: chunks_of.simps [of n xs])
  next
    case False
    with "1.IH" show ?thesis
      by (auto simp: chunks_of.simps [of n xs])
  qed
qed

lemma read_chunks_pieces:
  "- 1 \<le> n \<Longrightarrow>
   (n \<noteq> 0 \<longrightarrow> concat (read_chunks n handle) = handle)
   \<and> (\<forall>c\<in>set (read_chunks n handle). c \<noteq> [] \<and> (0 \<le> n \<longrightarrow> int (length c) \<le> n))"
  using chunks_of_pieces [of "nat n" handle]
  by (auto simp: read_chunks_def)

text \<open>
  Claim C2. For an existing file and a chunk size that \<open>read\<close> accepts, \<open>parse\<close> returns;
  the offsets of the states are, in order, the cumulative lengths of the raw chunks read
  through each chunk whose normalized text is not empty; they are sorted; and the chunks
  are the non-empty pieces of the file, each within the chunk size.
\<close>

theorem parse_offsets:
  assumes "fs p = Some handle" and "- 1 \<le> chunk_size"
  shows "\<exists>res self'. parse engine fs self p chunk_size = Inr (res, self')
    \<and> map offset (result_states res) =
        [int (length (concat (take (Suc i) (read_chunks chunk_size handle)))).
           i \<leftarrow> [0..<length (read_chunks chunk_size handle)],
           fst (normalize (handler self) (read_chunks chunk_size handle ! i)) \<noteq> []]
    \<and> sorted (map offset (result_states res))
    \<and> (chunk_size \<noteq> 0 \<longrightarrow> concat (read_chunks chunk_size handle) = handle)
    \<and> (\<forall>c\<in>set (read_chunks chunk_size handle).
          c \<noteq> [] \<and> (0 \<le> chunk_size \<longrightarrow> int (length c) \<le> chunk_size))"
proof -
  let ?self0 = "self\<lparr>collector := [], bytes_consumed := 0\<rparr>"
  let ?stream = "vt_new engine (cols (pty_size self)) (rows (pty_size self))"
  obtain self' stream' snaps where
    loop: "parse_loop engine chunk_size handle ?self0 ?stream [] = Inr (self', stream', [] @ snaps)"
    and offs: "map offset snaps =
      chunk_offsets (handler ?self0) (bytes_consumed ?self0) (read_chunks chunk_size handle)"
    using parse_loop_offsets [OF assms(2), of engine handle ?self0 ?stream "[]"] by blast
  have res: "parse engine fs self p chunk_size =
      Inr (\<lparr>result_states = snaps, result_warnings = collector self'\<rparr>, self')"
    using assms(1) loop by (simp add: parse_def Let_def)
  have closed_form: "map offset snaps =
      [int (length (concat (take (Suc i) (read_chunks chunk_size handle)))).
           i \<leftarrow> [0..<length (read_chunks chunk_size handle)],
           fst (normalize (handler self) (read_chunks chunk_size handle ! i)) \<noteq> []]"
    using offs by (simp add: chunk_offsets_closed cong: if_cong)
  have "sorted (map offset snaps)"
    using offs chunk_offsets_sorted by simp
  with res closed_form read_chunks_pieces [OF assms(2), of handle] show ?thesis
    by simp
qed

theorem parse_offsets_witness:
  "\<exists>res self'.
     parse typewriter [ustr ''ansi.bin'' \<mapsto> [0x61, 0x62, 0xC3, 0xC3, 0x63]]
       (AnsiReplayParser_init (Some \<lparr>rows = 1, cols = 2\<rparr>) None) (ustr ''ansi.bin'') 2 = Inr (res, self')
     \<and> map offset (result_states res) = [2, 5]"
  using parse_offsets [of "[ustr ''ansi.bin'' \<mapsto> [0x61, 0x62, 0xC3, 0xC3, 0x63]]" "ustr ''ansi.bin''"
      "[0x61, 0x62, 0xC3, 0xC3, 0x63]" 2 typewriter
      "AnsiReplayParser_init (Some \<lparr>rows = 1, cols = 2\<rparr>) None"]
  by (simp add: parse_def parse_loop.simps read_def normalize_def AnsiReplayParser_init_def
      TerminalCapabilities_default_def pattern_eval typewriter_def snapshot_def Let_def
      dec_repl_def osc_repl_def)

section \<open>Control sequences cut off by a chunk boundary\<close>

lemma utf8_decode_ascii_head:
  "b0 < 0x80 \<Longrightarrow>
   utf8_decode_ignore (a @ b0 # bs) = utf8_decode_ignore a @ utf8_decode_ignore (b0 # bs)"
proof (induction a rule: length_induct)
  case (1 a)
  have nc: "\<not> is_continuation_byte b0"
    using "1.prems" by (simp add: is_continuation_byte_def not_le)
  have IH: "utf8_decode_ignore (a' @ b0 # bs) = utf8_decode_ignore a' @ utf8_decode_ignore (b0 # bs)"
    if "length a' < length a" for a'
    using "1.IH" "1.prems" that by blast
  show ?case
  proof (cases a)
    case Nil
    then show ?thesis by simp
  next
    case a: (Cons ch s)
    have e1: "utf8_decode_ignore (s @ b0 # bs) = utf8_decode_ignore s @ utf8_decode_ignore (b0 # bs)"
      using IH [of s] a by simp
    show ?thesis
    proof (cases s)
      case Nil
      show ?thesis
        unfolding a Nil
        using nc
        by (simp add: utf8_decode_ignore.simps(2) [of ch "b0 # bs"] utf8_decode_ignore.simps(2) [of ch "[]"]
            del: utf8_decode_ignore.simps(2))
    next
      case s: (Cons ch2 s2)
      have e2: "utf8_decode_ignore (s2 @ b0 # bs) = utf8_decode_ignore s2 @ utf8_decode_ignore (b0 # bs)"
        using IH [of s2] a s by simp
      show ?thesis
      proof (cases s2)
        case Nil
        show ?thesis
          unfolding a
          using nc e1 e2 unfolding s Nil
          by (simp add: utf8_decode_ignore.simps(2) [of ch "ch2 # b0 # bs"]
              utf8_decode_ignore.simps(2) [of ch "[ch2]"]
              del: utf8_decode_ignore.simps(2))
      next
        case s2: (Cons ch3 s3)
        have e3: "utf8_decode_ignore (s3 @ b0 # bs) = utf8_decode_ignore s3 @ utf8_decode_ignore (b0 # bs)"
          using IH [of s3] a s s2 by simp
        show ?thesis
        proof (cases s3)
          case Nil
          show ?thesis
            unfolding a
            using nc e1 e2 e3 unfolding s s2 Nil
            by (simp add: utf8_decode_ignore.simps(2) [of ch "ch2 # ch3 # b0 # bs"]
                utf8_decode_ignore.simps(2) [of ch "[ch2, ch3]"]
                del: utf8_decode_ignore.simps(2))
        next
          case s3: (Cons ch4 s4)
          have e4: "utf8_decode_ignore (s4 @ b0 # bs) = utf8_decode_ignore s4 @ utf8_decode_ignore (b0 # bs)"
            using IH [of s4] a s s2 s3 by simp
          show ?thesis
            unfolding a
            using e1 e2 e3 e4 unfolding s s2 s3
            by (simp add: utf8_decode_ignore.simps(2) [of ch "ch2 # ch3 # ch4 # s4 @ b0 # bs"]
                utf8_decode_ignore.simps(2) [of ch "ch2 # ch3 # ch4 # s4"]
                del: utf8_decode_ignore.simps(2))
        qed
      qed
    qed
  qed
qed

lemma drop_Cons_length: "drop k xs = y # ys \<Longrightarrow> Suc k \<le> length xs"
proof -
  assume "drop k xs = y # ys"
  then have "length (drop k xs) = Suc (length ys)" by simp
  then show ?thesis by simp
qed

lemma DEC_bounded: "DEC_PRIVATE_RE t = Some n \<Longrightarrow> n \<le> length t"
  by (auto simp: DEC_PRIVATE_RE_def Let_def split: list.splits if_splits dest!: drop_Cons_length)

lemma osc_terminator_bounded: "osc_terminator t = Some n \<Longrightarrow> n \<le> length t"
  by (induction t arbitrary: n) (auto split: if_splits list.splits)

lemma OSC_bounded: "OSC_RE t = Some n \<Longrightarrow> n \<le> length t"
  by (auto simp: OSC_RE_def split: list.splits if_splits dest!: osc_terminator_bounded)

lemma decimal_ranges_ge: "list_all (\<lambda>(lo, n). 0x30 \<le> lo) decimal_ranges"
  by (simp add: decimal_ranges_def)

lemma isdecimal_ge: "isdecimal c \<Longrightarrow> 0x30 \<le> c"
  using decimal_ranges_ge
  by (auto simp: isdecimal_def list_ex_iff list_all_iff)

lemma not_isdecimal_ESC: "\<not> isdecimal 0x1B"
  using isdecimal_ge [of "0x1B"] by auto

lemma DEC_stable: "s \<noteq> [] \<Longrightarrow> DEC_PRIVATE_RE (s @ 0x1B # r) = DEC_PRIVATE_RE s"
proof (cases s)
  case Nil
  assume "s \<noteq> []"
  with Nil show ?thesis by simp
next
  case s: (Cons e s1)
  show ?thesis
  proof (cases s1)
    case Nil
    then show ?thesis by (simp add: DEC_PRIVATE_RE_def s split: list.splits)
  next
    case s1: (Cons b s2)
    show ?thesis
    proof (cases s2)
      case Nil
      then show ?thesis by (simp add: DEC_PRIVATE_RE_def s s1)
    next
      case s2: (Cons q rest)
      let ?P = "\<lambda>c. isdecimal c \<or> c = 0x3B"
      show ?thesis
      proof (cases "\<forall>x\<in>set rest. ?P x")
        case True
        then have tw1: "takeWhile ?P (rest @ 0x1B # r) = rest"
          and tw2: "takeWhile ?P rest = rest"
          by (simp_all add: not_isdecimal_ESC)
        show ?thesis
          unfolding s s1 s2 by (simp add: DEC_PRIVATE_RE_def tw1 tw2 Let_def)
      next
        case False
        then obtain x where "x \<in> set rest" "\<not> ?P x" by blast
        then have tw: "takeWhile ?P (rest @ 0x1B # r) = takeWhile ?P rest"
          by (rule takeWhile_append1)
        have "dropWhile ?P rest \<noteq> []"
          using False by simp
        then obtain c cs where "drop (length (takeWhile ?P rest)) rest = c # cs"
          unfolding dropWhile_eq_drop by (cases "drop (length (takeWhile ?P rest)) rest") auto
        then show ?thesis
          unfolding s s1 s2 by (simp add: DEC_PRIVATE_RE_def tw Let_def)
      qed
    qed
  qed
qed

lemma osc_terminator_stable:
  "osc_terminator tail = None \<Longrightarrow> tail = [] \<or> hd tail \<noteq> 0x5C \<Longrightarrow>
   osc_terminator (rest @ tail) = osc_terminator rest"
proof (induction rest)
  case Nil
  then show ?case by simp
next
  case (Cons c cs)
  then show ?case
    by (cases cs; cases tail) auto
qed

lemma OSC_stable:
  "s \<noteq> [] \<Longrightarrow> osc_terminator (0x1B # r) = None \<Longrightarrow> OSC_RE (s @ 0x1B # r) = OSC_RE s"
proof (cases s)
  case Nil
  assume "s \<noteq> []"
  with Nil show ?thesis by simp
next
  case s: (Cons e s1)
  assume t: "osc_terminator (0x1B # r) = None"
  show ?thesis
  proof (cases s1)
    case Nil
    then show ?thesis by (simp add: OSC_RE_def s)
  next
    case s1: (Cons b rest)
    have "osc_terminator (rest @ 0x1B # r) = osc_terminator rest"
      using t by (intro osc_terminator_stable) simp_all
    then show ?thesis by (simp add: OSC_RE_def s s1)
  qed
qed

lemma osc_terminator_tl: "osc_terminator (c # cs) = None \<Longrightarrow> osc_terminator cs = None"
  by (auto split: if_splits)

lemma osc_unterminated_no_match: "osc_terminator body = None \<Longrightarrow> \<not> has_match OSC_RE body"
proof (induction body)
  case Nil
  then show ?case by simp
next
  case (Cons c cs)
  have tl: "osc_terminator cs = None"
    using Cons.prems by (rule osc_terminator_tl)
  have "OSC_RE (c # cs) = None"
  proof (cases cs)
    case Nil
    then show ?thesis by (simp add: OSC_RE_def)
  next
    case (Cons b r)
    then have "osc_terminator r = None"
      using tl osc_terminator_tl by blast
    then show ?thesis using Cons by (simp add: OSC_RE_def)
  qed
  then show ?case using Cons.IH [OF tl] by simp
qed

lemma params_plain:
  assumes "list_all (\<lambda>c. isdecimal c \<or> c = 0x3B) ps"
  shows "0x07 \<notin> set ps \<and> 0x1B \<notin> set ps"
proof -
  have "0x30 \<le> c" if "c \<in> set ps" for c
  proof -
    from assms that have "isdecimal c \<or> c = 0x3B"
      by (simp add: list_all_iff)
    then show ?thesis
      using isdecimal_ge [of c] by auto
  qed
  then have "\<not> (7::nat) \<in> set ps" "\<not> (0x1B::nat) \<in> set ps"
    by fastforce+
  then show ?thesis by simp
qed

lemma osc_terminator_plain:
  "0x07 \<notin> set body \<Longrightarrow> 0x1B \<notin> set body \<Longrightarrow> osc_terminator body = None"
  by (induction body) auto

lemma partial_sequence_unterminated:
  assumes "partial_sequence tail"
  shows "\<exists>rest. tail = 0x1B # rest \<and> osc_terminator tail = None"
proof -
  from assms obtain rest where tail: "tail = 0x1B # rest"
    by (auto simp: partial_sequence_def split: list.splits)
  have "osc_terminator tail = None"
  proof (cases rest)
    case Nil
    then show ?thesis using tail by simp
  next
    case rest: (Cons b body)
    show ?thesis
    proof (cases "b = 0x5B")
      case True
      show ?thesis
      proof (cases body)
        case Nil
        then show ?thesis using tail rest True by simp
      next
        case (Cons q ps)
        with assms tail rest True have q: "q = 0x3F"
          and ps: "list_all (\<lambda>c. isdecimal c \<or> c = 0x3B) ps"
          by (simp_all add: partial_sequence_def)
        have "osc_terminator ps = None"
          using params_plain [OF ps] by (intro osc_terminator_plain) simp_all
        then show ?thesis
          unfolding tail rest True Cons q by simp
      qed
    next
      case False
      with assms tail rest have b: "b = 0x5D" and unterminated: "osc_terminator body = None"
        by (simp_all add: partial_sequence_def)
      then show ?thesis
        unfolding tail rest by simp
    qed
  qed
  with tail show ?thesis by blast
qed

lemma re_sub_tail:
  assumes stable: "\<And>s. s \<noteq> [] \<Longrightarrow> pattern (s @ tail) = pattern s"
    and bounded: "\<And>s n. pattern s = Some n \<Longrightarrow> n \<le> length s"
    and free: "\<not> has_match pattern tail"
  shows "re_sub pattern repl (pre @ tail) ws =
     (fst (re_sub pattern repl pre ws) @ tail, snd (re_sub pattern repl pre ws))"
  using assms
proof (induction pattern repl pre ws rule: re_sub.induct)
  case (1 pattern repl ws)
  then show ?case by (simp add: re_sub_no_match)
next
  case (2 pattern repl c cs ws)
  have st: "pattern (c # cs @ tail) = pattern (c # cs)"
    using "2.prems"(1) [of "c # cs"] by simp
  show ?case
  proof (cases "pattern (c # cs)")
    case None
    from "2.IH"(1) [OF None "2.prems"] show ?thesis
      by (simp add: st None split: prod.splits)
  next
    case (Some k)
    show ?thesis
    proof (cases k)
      case 0
      from "2.IH"(2) [OF Some 0 "2.prems"] show ?thesis
        by (simp add: st Some 0 split: prod.splits)
    next
      case (Suc n)
      have n: "n \<le> length cs"
        using "2.prems"(2) [OF Some] Suc by simp
      obtain r ws' where rp: "repl (take (Suc n) (c # cs)) ws = (r, ws')"
        by (cases "repl (take (Suc n) (c # cs)) ws")
      from "2.IH"(3) [OF Some Suc rp [symmetric] refl "2.prems"]
      have "re_sub pattern repl (drop n cs @ tail) ws' =
          (fst (re_sub pattern repl (drop n cs) ws') @ tail, snd (re_sub pattern repl (drop n cs) ws'))" .
      then show ?thesis
        using n rp by (simp add: st Some Suc split: prod.splits)
    qed
  qed
qed

lemma normalize_partial_tail:
  assumes partial: "partial_sequence (utf8_decode_ignore (0x1B # brest))"
    and plain: "supports_dec_private c
      \<or> \<not> has_match DEC_PRIVATE_RE (utf8_decode_ignore (0x1B # brest))"
  shows "normalize c (bpre @ 0x1B # brest) =
     (fst (normalize c bpre) @ utf8_decode_ignore (0x1B # brest), snd (normalize c bpre))"
proof -
  let ?tail = "utf8_decode_ignore (0x1B # brest)"
  obtain rest where tail: "?tail = 0x1B # rest" and tm: "osc_terminator ?tail = None"
    using partial_sequence_unterminated [OF partial] by blast
  have free: "\<not> has_match OSC_RE ?tail"
    using tm by (rule osc_unterminated_no_match)
  have dec: "utf8_decode_ignore (bpre @ 0x1B # brest) = utf8_decode_ignore bpre @ ?tail"
    by (rule utf8_decode_ascii_head) simp
  have dstab: "\<And>s. s \<noteq> [] \<Longrightarrow> DEC_PRIVATE_RE (s @ ?tail) = DEC_PRIVATE_RE s"
    unfolding tail by (rule DEC_stable)
  have ostab: "\<And>s. s \<noteq> [] \<Longrightarrow> OSC_RE (s @ ?tail) = OSC_RE s"
    using tm unfolding tail by (simp add: OSC_stable del: osc_terminator.simps)
  show ?thesis
  proof (cases "supports_dec_private c")
    case True
    show ?thesis
      unfolding normalize_def dec Let_def
      by (simp add: dec_repl_keep [OF True] re_sub_keep re_sub_tail [OF ostab OSC_bounded free]
          split: prod.splits del: utf8_decode_ignore.simps)
  next
    case False
    with plain have dfree: "\<not> has_match DEC_PRIVATE_RE ?tail" by simp
    show ?thesis
      unfolding normalize_def dec Let_def
      by (simp add: re_sub_tail [OF dstab DEC_bounded dfree] re_sub_tail [OF ostab OSC_bounded free]
          split: prod.splits del: utf8_decode_ignore.simps)
  qed
qed

lemma parse_loop_trace:
  "- 1 \<le> n \<Longrightarrow>
   \<exists>self' stream'.
     parse_loop engine n handle self stream acc =
       Inr (self', stream',
            acc @ chunk_states engine (handler self) stream (bytes_consumed self) (read_chunks n handle))
     \<and> collector self' =
         collector self @ chunk_warnings (handler self) (bytes_consumed self) (read_chunks n handle)"
proof (induction engine n handle self stream acc rule: parse_loop.induct)
  case (1 engine n handle self stream acc)
  obtain raw rest where rd: "read n handle = Inr (raw, rest)"
    using read_ok [OF "1.prems"] by blast
  show ?case
  proof (cases "raw = []")
    case True
    then show ?thesis
      using rd read_chunks_empty [OF "1.prems", of handle rest]
      by (simp add: parse_loop.simps [of engine n handle])
  next
    case False
    obtain normalized warns where nm: "normalize (handler self) raw = (normalized, warns)"
      by (cases "normalize (handler self) raw")
    define self1 where "self1 = self\<lparr>collector := collector self
        @ map (\<lambda>w. \<lparr>offset_we = bytes_consumed self, warning = w\<rparr>) warns\<rparr>"
    define self2 where "self2 = self1\<lparr>bytes_consumed := bytes_consumed self1 + int (length raw)\<rparr>"
    have h2: "handler self2 = handler self"
      and b2: "bytes_consumed self2 = bytes_consumed self + int (length raw)"
      and c2: "collector self2 = collector self
        @ map (\<lambda>w. \<lparr>offset_we = bytes_consumed self, warning = w\<rparr>) warns"
      by (simp_all add: self1_def self2_def)
    have cs: "read_chunks n handle = raw # read_chunks n rest"
      using read_chunks_step [OF "1.prems" rd False] .
    show ?thesis
    proof (cases "normalized = []")
      case True
      have step: "parse_loop engine n handle self stream acc =
          parse_loop engine n rest self2 stream acc"
        using rd False nm True
        by (simp add: parse_loop.simps [of engine n handle] self1_def self2_def Let_def)
      from "1.IH"(1) [OF rd refl False nm [symmetric] refl self1_def self2_def True "1.prems"]
      obtain self' stream' where
        "parse_loop engine n rest self2 stream acc =
           Inr (self', stream',
                acc @ chunk_states engine (handler self2) stream (bytes_consumed self2) (read_chunks n rest))"
        "collector self' =
           collector self2 @ chunk_warnings (handler self2) (bytes_consumed self2) (read_chunks n rest)"
        by blast
      then show ?thesis
        using True nm by (simp add: step cs h2 b2 c2)
    next
      case nonempty: False
      define stream1 where "stream1 = vt_feed engine stream normalized"
      have step: "parse_loop engine n handle self stream acc =
          parse_loop engine n rest self2 stream1
            (acc @ [snapshot (vt_screen engine stream1) (bytes_consumed self2)])"
        using rd False nm nonempty
        by (simp add: parse_loop.simps [of engine n handle] self1_def self2_def stream1_def Let_def)
      from "1.IH"(2) [OF rd refl False nm [symmetric] refl self1_def self2_def nonempty stream1_def "1.prems"]
      obtain self' stream' where
        "parse_loop engine n rest self2 stream1
            (acc @ [snapshot (vt_screen engine stream1) (bytes_consumed self2)])
          = Inr (self', stream',
                 (acc @ [snapshot (vt_screen engine stream1) (bytes_consumed self2)])
                 @ chunk_states engine (handler self2) stream1 (bytes_consumed self2) (read_chunks n rest))"
        "collector self' =
           collector self2 @ chunk_warnings (handler self2) (bytes_consumed self2) (read_chunks n rest)"
        by blast
      then show ?thesis
        using nonempty nm by (simp add: step cs h2 b2 c2 stream1_def)
    qed
  qed
qed

lemma fed_Cons:
  "fed c (x # xs) = (if fst (normalize c x) = [] then fed c xs else fst (normalize c x) # fed c xs)"
  by (simp add: fed_def)

lemma chunk_states_closed:
  "chunk_states engine c stream k cs =
     [snapshot (vt_screen engine (foldl (vt_feed engine) stream (fed c (take (Suc i) cs))))
        (k + int (length (concat (take (Suc i) cs)))).
      i \<leftarrow> [0..<length cs], fst (normalize c (cs ! i)) \<noteq> []]"
proof (induction cs arbitrary: stream k)
  case Nil
  then show ?case by simp
next
  case (Cons x xs)
  show ?case
    unfolding length_Cons upt_Suc_shift
    by (simp add: Cons.IH o_def add.assoc fed_Cons fed_def [of c "[]"] cong: if_cong)
qed

lemma chunk_warnings_closed:
  "chunk_warnings c k cs =
     concat [map (\<lambda>w. \<lparr>offset_we = k + int (length (concat (take i cs))), warning = w\<rparr>)
               (snd (normalize c (cs ! i))).
             i \<leftarrow> [0..<length cs]]"
proof (induction cs arbitrary: k)
  case Nil
  then show ?case by simp
next
  case (Cons x xs)
  show ?case
    unfolding length_Cons upt_Suc_shift
    by (simp add: Cons.IH o_def add.assoc)
qed

lemma fed_snoc:
  "i < length cs \<Longrightarrow> fst (normalize c (cs ! i)) \<noteq> [] \<Longrightarrow>
   fed c (take (Suc i) cs) = fed c (take i cs) @ [fst (normalize c (cs ! i))]"
  by (simp add: fed_def take_Suc_conv_app_nth)

text \<open>
  Claim C10, as the code has it. A chunk ends in a cut-off control sequence, and either
  DEC-private sequences are kept or the cut-off sequence holds no complete DEC-private
  sequence inside it. Then \<open>normalize\<close> returns the normalized text of what precedes,
  followed by the cut-off sequence unchanged, and no warning beyond those of what
  precedes. \<open>parse\<close> normalizes each chunk on its own, for every file and chunk size: the
  emulator is fed the non-empty normalized texts of the chunks in order, a state is
  recorded behind each, and the warnings are those of each chunk at the count of bytes
  before it. So wherever in the file a chunk is cut in this way, the cut-off sequence is
  fed to the emulator with that chunk, whatever the capabilities. The rest of the sequence
  stands at the head of the next chunk and matches no pattern by itself: unless that chunk
  holds a complete sequence of its own, it is fed whole and unwarned.
\<close>

theorem split_sequence_passes_through:
  assumes partial: "partial_sequence (utf8_decode_ignore (0x1B # brest))"
    and plain: "supports_dec_private (handler self)
      \<or> \<not> has_match DEC_PRIVATE_RE (utf8_decode_ignore (0x1B # brest))"
  shows "normalize (handler self) (bpre @ 0x1B # brest) =
       (fst (normalize (handler self) bpre) @ utf8_decode_ignore (0x1B # brest),
        snd (normalize (handler self) bpre))
    \<and> (fs p = Some handle \<and> - 1 \<le> chunk_size \<longrightarrow>
       (\<exists>res self'. parse engine fs self p chunk_size = Inr (res, self')
          \<and> result_states res =
              [snapshot
                 (vt_screen engine
                    (foldl (vt_feed engine) (vt_new engine (cols (pty_size self)) (rows (pty_size self)))
                       (fed (handler self) (take (Suc i) (read_chunks chunk_size handle)))))
                 (int (length (concat (take (Suc i) (read_chunks chunk_size handle))))).
               i \<leftarrow> [0..<length (read_chunks chunk_size handle)],
               fst (normalize (handler self) (read_chunks chunk_size handle ! i)) \<noteq> []]
          \<and> result_warnings res =
              concat
                [map (\<lambda>w. \<lparr>offset_we = int (length (concat (take i (read_chunks chunk_size handle)))),
                           warning = w\<rparr>)
                   (snd (normalize (handler self) (read_chunks chunk_size handle ! i))).
                 i \<leftarrow> [0..<length (read_chunks chunk_size handle)]])
       \<and> (\<forall>i<length (read_chunks chunk_size handle).
            read_chunks chunk_size handle ! i = bpre @ 0x1B # brest \<longrightarrow>
            fed (handler self) (take (Suc i) (read_chunks chunk_size handle)) =
              fed (handler self) (take i (read_chunks chunk_size handle))
              @ [fst (normalize (handler self) bpre) @ utf8_decode_ignore (0x1B # brest)]
            \<and> (Suc i < length (read_chunks chunk_size handle)
                 \<and> \<not> has_match DEC_PRIVATE_RE
                       (utf8_decode_ignore (read_chunks chunk_size handle ! Suc i))
                 \<and> \<not> has_match OSC_RE
                       (utf8_decode_ignore (read_chunks chunk_size handle ! Suc i)) \<longrightarrow>
               normalize (handler self) (read_chunks chunk_size handle ! Suc i) =
                 (utf8_decode_ignore (read_chunks chunk_size handle ! Suc i), []))))"
proof -
  let ?c = "handler self"
  let ?tail = "utf8_decode_ignore (0x1B # brest)"
  let ?chunks = "read_chunks chunk_size handle"
  let ?stream = "vt_new engine (cols (pty_size self)) (rows (pty_size self))"
  let ?self0 = "self\<lparr>collector := [], bytes_consumed := 0\<rparr>"
  have n1: "normalize ?c (bpre @ 0x1B # brest) =
      (fst (normalize ?c bpre) @ ?tail, snd (normalize ?c bpre))"
    using partial plain by (rule normalize_partial_tail)
  have tail: "?tail \<noteq> []"
    using partial by (auto simp: partial_sequence_def simp del: utf8_decode_ignore.simps)
  have run: "\<exists>res self'. parse engine fs self p chunk_size = Inr (res, self')
      \<and> result_states res =
          [snapshot (vt_screen engine (foldl (vt_feed engine) ?stream (fed ?c (take (Suc i) ?chunks))))
             (int (length (concat (take (Suc i) ?chunks)))).
           i \<leftarrow> [0..<length ?chunks], fst (normalize ?c (?chunks ! i)) \<noteq> []]
      \<and> result_warnings res =
          concat [map (\<lambda>w. \<lparr>offset_we = int (length (concat (take i ?chunks))), warning = w\<rparr>)
                    (snd (normalize ?c (?chunks ! i))).
                  i \<leftarrow> [0..<length ?chunks]]"
    if fl: "fs p = Some handle" and sz: "- 1 \<le> chunk_size"
  proof -
    obtain self' stream' where
      loop: "parse_loop engine chunk_size handle ?self0 ?stream [] =
          Inr (self', stream', [] @ chunk_states engine (handler ?self0) ?stream (bytes_consumed ?self0) ?chunks)"
      and coll: "collector self' =
          collector ?self0 @ chunk_warnings (handler ?self0) (bytes_consumed ?self0) ?chunks"
      using parse_loop_trace [OF sz, of engine handle ?self0 ?stream "[]"] by blast
    have res: "parse engine fs self p chunk_size =
        Inr (\<lparr>result_states = chunk_states engine ?c ?stream 0 ?chunks,
              result_warnings = chunk_warnings ?c 0 ?chunks\<rparr>, self')"
      using fl loop coll by (simp add: parse_def Let_def)
    show ?thesis
      unfolding res
      by (simp add: chunk_states_closed [of engine ?c ?stream 0 ?chunks]
          chunk_warnings_closed [of ?c 0 ?chunks] cong: if_cong)
  qed
  have at: "fed ?c (take (Suc i) ?chunks) = fed ?c (take i ?chunks) @ [fst (normalize ?c bpre) @ ?tail]"
    if "i < length ?chunks" "?chunks ! i = bpre @ 0x1B # brest" for i
    using fed_snoc [OF that(1), of ?c] that(2) n1 tail by simp
  have nxt: "normalize ?c x = (utf8_decode_ignore x, [])"
    if "\<not> has_match DEC_PRIVATE_RE (utf8_decode_ignore x)" "\<not> has_match OSC_RE (utf8_decode_ignore x)"
    for x
    using that by (rule normalize_free)
  from n1 run at nxt show ?thesis by blast
qed

theorem split_sequence_passes_through_witness:
  "normalize TerminalCapabilities_default ([0x65] @ 0x1B # [0x5D, 0x30]) =
     ([0x65, 0x1B, 0x5D, 0x30], [])
   \<and> read_chunks 4 [0x61, 0x62, 0x63, 0x64, 0x65, 0x1B, 0x5D, 0x30, 0x3B, 0x74, 0x07, 0x78] =
       [[0x61, 0x62, 0x63, 0x64], [0x65] @ 0x1B # [0x5D, 0x30], [0x3B, 0x74, 0x07, 0x78]]
   \<and> (\<exists>res self'.
        parse typewriter
          [ustr ''ansi.bin'' \<mapsto> [0x61, 0x62, 0x63, 0x64, 0x65, 0x1B, 0x5D, 0x30, 0x3B, 0x74, 0x07, 0x78]]
          (AnsiReplayParser_init (Some \<lparr>rows = 1, cols = 12\<rparr>) None) (ustr ''ansi.bin'') 4
          = Inr (res, self')
        \<and> result_warnings res = []
        \<and> map offset (result_states res) = [4, 8, 12]
        \<and> map (\<lambda>s. concat (map char (cells s ! 0))) (result_states res) =
            [[0x61, 0x62, 0x63, 0x64, 0x20, 0x20, 0x20, 0x20, 0x20, 0x20, 0x20, 0x20],
             [0x61, 0x62, 0x63, 0x64, 0x65, 0x1B, 0x5D, 0x30, 0x20, 0x20, 0x20, 0x20],
             [0x61, 0x62, 0x63, 0x64, 0x65, 0x1B, 0x5D, 0x30, 0x3B, 0x74, 0x07, 0x78]])
   \<and> normalize TerminalCapabilities_default [0x65, 0x1B, 0x5D, 0x30, 0x3B, 0x74, 0x07, 0x78] =
       ([0x65, 0x78], [suppressed ''osc-suppressed'' [0x1B, 0x5D, 0x30, 0x3B, 0x74, 0x07]])"
  using split_sequence_passes_through
    [where brest = "[0x5D, 0x30]" and bpre = "[0x65]" and chunk_size = 4
       and p = "ustr ''ansi.bin''" and engine = typewriter
       and handle = "[0x61, 0x62, 0x63, 0x64, 0x65, 0x1B, 0x5D, 0x30, 0x3B, 0x74, 0x07, 0x78]"
       and fs = "[ustr ''ansi.bin'' \<mapsto> [0x61, 0x62, 0x63, 0x64, 0x65, 0x1B, 0x5D, 0x30, 0x3B, 0x74, 0x07, 0x78]]"
       and self = "AnsiReplayParser_init (Some \<lparr>rows = 1, cols = 12\<rparr>) None"]
  by (simp add: partial_sequence_def pattern_eval normalize_def dec_repl_def osc_repl_def
      TerminalCapabilities_default_def AnsiReplayParser_init_def typewriter_def snapshot_def
      pyte_Char_init_def suppressed_def Let_def parse_def parse_loop.simps read_def ustr_def
      read_chunks_def chunks_of.simps fed_def upt_rec [of _ 12])

text \<open>
  The claim as stated covers every unterminated OSC introducer. This chunk ends in one
  whose body holds a complete DEC-private sequence: with the default capabilities that
  sequence is deleted from the cut-off OSC sequence and a warning is emitted, by
  \<open>normalize\<close> and so by \<open>parse\<close> when the chunk fills a read.
\<close>

theorem split_sequence_passes_through_counterexample:
  "partial_sequence (utf8_decode_ignore (0x1B # [0x5D, 0x30, 0x3B, 0x1B, 0x5B, 0x3F, 0x31, 0x68, 0x78]))
   \<and> normalize TerminalCapabilities_default
       ([0x61] @ 0x1B # [0x5D, 0x30, 0x3B, 0x1B, 0x5B, 0x3F, 0x31, 0x68, 0x78]) =
       ([0x61, 0x1B, 0x5D, 0x30, 0x3B, 0x78], [suppressed ''dec-private'' [0x1B, 0x5B, 0x3F, 0x31, 0x68]])
   \<and> normalize TerminalCapabilities_default
       ([0x61] @ 0x1B # [0x5D, 0x30, 0x3B, 0x1B, 0x5B, 0x3F, 0x31, 0x68, 0x78]) \<noteq>
       (fst (normalize TerminalCapabilities_default [0x61])
          @ utf8_decode_ignore (0x1B # [0x5D, 0x30, 0x3B, 0x1B, 0x5B, 0x3F, 0x31, 0x68, 0x78]),
        snd (normalize TerminalCapabilities_default [0x61]))
   \<and> (\<exists>res self'.
        parse typewriter
          [ustr ''ansi.bin'' \<mapsto>
             [0x61, 0x1B, 0x5D, 0x30, 0x3B, 0x1B, 0x5B, 0x3F, 0x31, 0x68, 0x78, 0x07]]
          (AnsiReplayParser_init (Some \<lparr>rows = 1, cols = 7\<rparr>) None) (ustr ''ansi.bin'') 11
          = Inr (res, self')
        \<and> result_warnings res =
            [\<lparr>offset_we = 0, warning = suppressed ''dec-private'' [0x1B, 0x5B, 0x3F, 0x31, 0x68]\<rparr>]
        \<and> map (\<lambda>s. concat (map char (cells s ! 0))) (result_states res) =
            [[0x61, 0x1B, 0x5D, 0x30, 0x3B, 0x78, 0x20],
             [0x61, 0x1B, 0x5D, 0x30, 0x3B, 0x78, 0x07]])"
  by (simp add: partial_sequence_def pattern_eval normalize_def dec_repl_def osc_repl_def
      TerminalCapabilities_default_def AnsiReplayParser_init_def typewriter_def snapshot_def
      pyte_Char_init_def suppressed_def Let_def parse_def parse_loop.simps read_def ustr_def
      upt_rec [of _ 7])

section \<open>Waiting on the output buffer\<close>

lemma wait_loop_True:
  "wait_loop p d obs = Some True \<longleftrightarrow>
     (\<exists>k<length obs. p (utf8_decode_ignore (seen (obs ! k))) \<and> waited p d (take k obs))"
  by (induction obs) (auto simp: Ex_less_Suc2 waited_def Let_def)

lemma wait_loop_False:
  "wait_loop p d obs = Some False \<longleftrightarrow>
     (\<exists>k<length obs. \<not> p (utf8_decode_ignore (seen (obs ! k))) \<and> d \<le> monotonic (obs ! k)
        \<and> waited p d (take k obs))"
  by (induction obs) (auto simp: Ex_less_Suc2 waited_def Let_def)

lemma wait_loop_None: "wait_loop p d obs = None \<longleftrightarrow> waited p d obs"
  by (induction obs) (auto simp: waited_def Let_def)

lemma sampled_moment:
  "sampled history env \<Longrightarrow> k < length (observations env) \<Longrightarrow>
   call_start env \<le> monotonic (observations env ! k)
   \<and> seen (observations env ! k) = history (monotonic (observations env ! k))"
proof -
  assume s: "sampled history env" and k: "k < length (observations env)"
  then obtain ob later where obs: "observations env = ob # later"
    by (cases "observations env") auto
  have first: "call_start env \<le> monotonic ob"
    using s obs by (simp add: sampled_def)
  have srt: "sorted (map monotonic (observations env))"
    using s by (simp add: sampled_def)
  have pos: "0 < length (observations env)"
    using k by auto
  have "monotonic (observations env ! 0) \<le> monotonic (observations env ! k)"
    using sorted_nth_mono [OF srt, of 0 k] k pos by simp
  then have "monotonic ob \<le> monotonic (observations env ! k)"
    by (simp add: obs)
  moreover have "seen (observations env ! k) = history (monotonic (observations env ! k))"
    using s k by (simp add: sampled_def list_all_length)
  ultimately show ?thesis using first by simp
qed

lemma waited_static:
  "\<forall>ob\<in>set obs. seen ob = b \<Longrightarrow> \<not> p (utf8_decode_ignore b) \<Longrightarrow>
   waited p d obs \<longleftrightarrow> \<not> (\<exists>ob\<in>set obs. d \<le> monotonic ob)"
  by (auto simp: waited_def list_all_iff not_le)

text \<open>
  Claim C6, as the code has it. \<open>wait_until(p, t)\<close> returns true exactly when \<open>p\<close> holds
  on the decoded buffer at one of its evaluation points, every earlier evaluation having
  found \<open>p\<close> false and the clock before the deadline (the clock at the call's start plus
  \<open>t\<close>); it returns false exactly when an evaluation finds \<open>p\<close> false and the clock at or
  past the deadline, after the same; and it is still waiting at the end of a trace exactly
  when every evaluation found \<open>p\<close> false and the clock before the deadline. So it never
  returns true unless \<open>p\<close> was true of the buffer at an evaluation point, which is a
  moment of the buffer's history not before the call's start. When every evaluation sees
  the same buffer \<open>b\<close>: if \<open>p\<close> holds of it, the first evaluation returns true; if not,
  the call returns false once the clock is read at or past the deadline, and not before.
\<close>

theorem wait_until_evaluation_points:
  "(wait_until p t env = Some True \<longleftrightarrow>
      (\<exists>k<length (observations env).
          p (utf8_decode_ignore (seen (observations env ! k)))
          \<and> waited p (call_start env + t) (take k (observations env))))
   \<and> (wait_until p t env = Some False \<longleftrightarrow>
      (\<exists>k<length (observations env).
          \<not> p (utf8_decode_ignore (seen (observations env ! k)))
          \<and> call_start env + t \<le> monotonic (observations env ! k)
          \<and> waited p (call_start env + t) (take k (observations env))))
   \<and> (wait_until p t env = None \<longleftrightarrow> waited p (call_start env + t) (observations env))
   \<and> (sampled history env \<and> wait_until p t env = Some True \<longrightarrow>
        (\<exists>m\<ge>call_start env. p (utf8_decode_ignore (history m))))
   \<and> ((\<forall>ob\<in>set (observations env). seen ob = b) \<and> observations env \<noteq> []
        \<and> p (utf8_decode_ignore b) \<longrightarrow>
        wait_until p t env = Some True
        \<and> wait_until p t (env\<lparr>observations := take 1 (observations env)\<rparr>) = Some True)
   \<and> ((\<forall>ob\<in>set (observations env). seen ob = b) \<and> \<not> p (utf8_decode_ignore b) \<longrightarrow>
        (wait_until p t env = Some False \<longleftrightarrow>
           (\<exists>ob\<in>set (observations env). call_start env + t \<le> monotonic ob))
        \<and> (wait_until p t env = None \<longleftrightarrow>
           (\<forall>ob\<in>set (observations env). monotonic ob < call_start env + t)))"
proof -
  let ?d = "call_start env + t"
  let ?obs = "observations env"
  have T: "wait_until p t env = Some True \<longleftrightarrow>
      (\<exists>k<length ?obs. p (utf8_decode_ignore (seen (?obs ! k))) \<and> waited p ?d (take k ?obs))"
    by (simp add: wait_until_def wait_loop_True)
  have F: "wait_until p t env = Some False \<longleftrightarrow>
      (\<exists>k<length ?obs. \<not> p (utf8_decode_ignore (seen (?obs ! k))) \<and> ?d \<le> monotonic (?obs ! k)
         \<and> waited p ?d (take k ?obs))"
    by (simp add: wait_until_def wait_loop_False)
  have N: "wait_until p t env = None \<longleftrightarrow> waited p ?d ?obs"
    by (simp add: wait_until_def wait_loop_None)
  have H: "\<exists>m\<ge>call_start env. p (utf8_decode_ignore (history m))"
    if s: "sampled history env" and r: "wait_until p t env = Some True"
  proof -
    from r T obtain k where k: "k < length ?obs" "p (utf8_decode_ignore (seen (?obs ! k)))"
      by blast
    from sampled_moment [OF s k(1)] k(2) show ?thesis by auto
  qed
  have S1: "wait_until p t env = Some True
      \<and> wait_until p t (env\<lparr>observations := take 1 ?obs\<rparr>) = Some True"
    if "\<forall>ob\<in>set ?obs. seen ob = b" "?obs \<noteq> []" "p (utf8_decode_ignore b)"
    using that by (cases ?obs) (simp_all add: wait_until_def)
  have S2: "(wait_until p t env = Some False \<longleftrightarrow> (\<exists>ob\<in>set ?obs. ?d \<le> monotonic ob))
      \<and> (wait_until p t env = None \<longleftrightarrow> (\<forall>ob\<in>set ?obs. monotonic ob < ?d))"
    if st: "\<forall>ob\<in>set ?obs. seen ob = b" and np: "\<not> p (utf8_decode_ignore b)"
  proof -
    have nT: "wait_until p t env \<noteq> Some True"
      using T st np by auto
    have n: "wait_until p t env = None \<longleftrightarrow> \<not> (\<exists>ob\<in>set ?obs. ?d \<le> monotonic ob)"
    proof -
      have "waited p ?d ?obs \<longleftrightarrow> \<not> (\<exists>ob\<in>set ?obs. ?d \<le> monotonic ob)"
        using st np by (rule waited_static)
      with N show ?thesis by simp
    qed
    then have "wait_until p t env = Some False \<longleftrightarrow> (\<exists>ob\<in>set ?obs. ?d \<le> monotonic ob)"
      using nT by (cases "wait_until p t env") auto
    with n show ?thesis by (auto simp: not_le)
  qed
  from T F N H S1 S2 show ?thesis by blast
qed

theorem wait_until_evaluation_points_witness:
  "wait_until (sublist [0x6F, 0x6B]) 5
     \<lparr>call_start = 10,
      observations = [\<lparr>seen = [0x24, 0x20], monotonic = 10\<rparr>,
                      \<lparr>seen = [0x24, 0x20, 0x6F, 0x6B, 0x0A], monotonic = 12\<rparr>]\<rparr> = Some True
   \<and> wait_until (sublist [0x6F, 0x6B]) 5
     \<lparr>call_start = 10,
      observations = [\<lparr>seen = [0x24, 0x20], monotonic = 10\<rparr>,
                      \<lparr>seen = [0x24, 0x20], monotonic = 15\<rparr>]\<rparr> = Some False"
  using wait_until_evaluation_points
    [of "sublist [0x6F, 0x6B]" 5
        "\<lparr>call_start = 10,
          observations = [\<lparr>seen = [0x24, 0x20], monotonic = 10\<rparr>,
                          \<lparr>seen = [0x24, 0x20, 0x6F, 0x6B, 0x0A], monotonic = 12\<rparr>]\<rparr>"]
    wait_until_evaluation_points
    [of "sublist [0x6F, 0x6B]" 5
        "\<lparr>call_start = 10,
          observations = [\<lparr>seen = [0x24, 0x20], monotonic = 10\<rparr>,
                          \<lparr>seen = [0x24, 0x20], monotonic = 15\<rparr>]\<rparr>" _ "[0x24, 0x20]"]
  by (simp add: wait_until_def sublist_Cons_right prefix_Cons)

text \<open>
  The claim as stated speaks of the moments within \<open>t\<close> of the call's start. In the first
  history a prompt stands at the end of the buffer from moment 1 to moment 2; the waiting
  thread next evaluates the predicate at moment 3, after a second chunk has arrived, and
  the call returns false at the deadline although the predicate held within the time. In
  the second history the text arrives after the deadline, at moment \<open>11/2\<close>, before the
  thread evaluates the predicate again at moment 6: the call returns true although the
  predicate held at no moment within the time.
\<close>

theorem wait_until_counterexample:
  "sampled (\<lambda>m. if m < 1 then [] else if m < 2 then [0x24, 0x20] else [0x24, 0x20, 0x6C])
     \<lparr>call_start = 0,
      observations = [\<lparr>seen = [], monotonic = 0\<rparr>,
                      \<lparr>seen = [0x24, 0x20, 0x6C], monotonic = 3\<rparr>,
                      \<lparr>seen = [0x24, 0x20, 0x6C], monotonic = 5\<rparr>]\<rparr>
   \<and> holds_within (suffix [0x24, 0x20])
       (\<lambda>m. if m < 1 then [] else if m < 2 then [0x24, 0x20] else [0x24, 0x20, 0x6C]) 0 5
   \<and> wait_until (suffix [0x24, 0x20]) 5
       \<lparr>call_start = 0,
        observations = [\<lparr>seen = [], monotonic = 0\<rparr>,
                        \<lparr>seen = [0x24, 0x20, 0x6C], monotonic = 3\<rparr>,
                        \<lparr>seen = [0x24, 0x20, 0x6C], monotonic = 5\<rparr>]\<rparr> = Some False
   \<and> sampled (\<lambda>m. if m < 11 / 2 then [] else [0x6F, 0x6B])
       \<lparr>call_start = 0,
        observations = [\<lparr>seen = [], monotonic = 0\<rparr>, \<lparr>seen = [0x6F, 0x6B], monotonic = 6\<rparr>]\<rparr>
   \<and> \<not> holds_within (sublist [0x6F, 0x6B]) (\<lambda>m. if m < 11 / 2 then [] else [0x6F, 0x6B]) 0 5
   \<and> wait_until (sublist [0x6F, 0x6B]) 5
       \<lparr>call_start = 0,
        observations = [\<lparr>seen = [], monotonic = 0\<rparr>, \<lparr>seen = [0x6F, 0x6B], monotonic = 6\<rparr>]\<rparr>
       = Some True"
proof -
  have "(1::real) \<le> 5 \<and> suffix [0x24, 0x20::nat] (utf8_decode_ignore [0x24, 0x20])"
    by simp
  then have A: "holds_within (suffix [0x24, 0x20])
       (\<lambda>m. if m < 1 then [] else if m < 2 then [0x24, 0x20] else [0x24, 0x20, 0x6C]) 0 5"
    unfolding holds_within_def by (intro exI [of _ 1]) simp
  have B: "\<not> holds_within (sublist [0x6F, 0x6B]) (\<lambda>m. if m < 11 / 2 then [] else [0x6F, 0x6B]) 0 5"
    unfolding holds_within_def by auto
  show ?thesis
    using A B
    by (simp add: sampled_def wait_until_def suffix_def sublist_Cons_right prefix_Cons)
qed

section \<open>The script driver\<close>

lemma buffer_tail_suffix:
  "\<exists>front. utf8_decode_ignore buf = front @ buffer_tail buf
     \<and> length (buffer_tail buf) \<le> 200
     \<and> (front = [] \<or> length (buffer_tail buf) = 200)"
proof -
  let ?t = "utf8_decode_ignore buf"
  have "?t = take (length ?t - 200) ?t @ buffer_tail buf"
    by (simp add: buffer_tail_def Let_def del: utf8_decode_ignore.simps)
  moreover have "length (buffer_tail buf) \<le> 200"
    by (simp add: buffer_tail_def Let_def del: utf8_decode_ignore.simps)
  moreover have "take (length ?t - 200) ?t = [] \<or> length (buffer_tail buf) = 200"
    by (auto simp: buffer_tail_def Let_def simp del: utf8_decode_ignore.simps)
  ultimately show ?thesis by blast
qed

text \<open>
  Claim C8, as the code has it. When \<open>wait_until\<close> returns false, an input step with an
  expectation (once its payload is encoded) and a wait step raise \<open>TimeoutError\<close>; the
  message carries the \<open>repr\<close> of the expectation and the tail of the decoded buffer text:
  its last 200 code points, or all of it when it is shorter.
\<close>

theorem timeout_payload:
  assumes "\<not> wait_until_result env"
  shows "(expect step = Some cond \<and> utf8_encode (payload step) = Inr encoded \<longrightarrow>
       run_input_step repr_str repr_callable step env st =
         Inl (TimeoutError
               (ustr ''Condition not met for input step. Expectation: ''
                @ OutputCondition_repr repr_str repr_callable cond
                @ ustr '', buffer tail: '' @ buffer_tail (buffer_bytes env))))
    \<and> run_wait_step repr_str repr_callable wstep env st =
         Inl (TimeoutError
               (ustr ''Wait step timed out. Expectation: ''
                @ OutputCondition_repr repr_str repr_callable (condition wstep)
                @ ustr '', buffer tail: '' @ buffer_tail (buffer_bytes env)))
    \<and> (\<exists>front. utf8_decode_ignore (buffer_bytes env) = front @ buffer_tail (buffer_bytes env)
          \<and> length (buffer_tail (buffer_bytes env)) \<le> 200
          \<and> (front = [] \<or> length (buffer_tail (buffer_bytes env)) = 200))"
  using assms buffer_tail_suffix [of "buffer_bytes env"]
  by (simp add: run_input_step_def run_wait_step_def Let_def split: option.splits)

lemma decode_e_acute:
  "utf8_decode_ignore (concat (replicate n [0xC3, 0xA9])) = replicate n 0xE9"
  by (induction n) (simp_all add: is_continuation_byte_def)

lemma encode_e_acute:
  "utf8_encode (replicate n 0xE9) = Inr (concat (replicate n [0xC3, 0xA9]))"
  by (induction n) (simp_all add: utf8_encode_char_def)

lemma length_concat_replicate: "length (concat (replicate n xs)) = n * length xs"
  by (induction n) simp_all

theorem timeout_payload_witness:
  "run_wait_step (\<lambda>s. [0x27] @ s @ [0x27]) (\<lambda>f. ustr ''<function>'')
     \<lparr>condition = \<lparr>contains = Some (ustr ''ok''), regex = None, predicate = None\<rparr>, timeout = 5\<rparr>
     \<lparr>recorder_offset = 3, wall_clock = 0, wait_until_result = False,
      buffer_bytes = [0x6E, 0x6F, 0x0A]\<rparr>
     \<lparr>pty_input = [], records = []\<rparr>
   = Inl (TimeoutError
           (ustr ''Wait step timed out. Expectation: OutputCondition(contains=''
            @ [0x27] @ ustr ''ok'' @ [0x27] @ ustr ''), buffer tail: no'' @ [0x0A]))
   \<and> run_input_step (\<lambda>s. [0x27] @ s @ [0x27]) (\<lambda>f. ustr ''<function>'')
     \<lparr>payload = ustr ''ls'', mark = Some (ustr ''m''),
      expect = Some \<lparr>contains = Some (ustr ''ok''), regex = None, predicate = None\<rparr>,
      expect_timeout = None, delay = 0, send_newline = True\<rparr>
     \<lparr>recorder_offset = 3, wall_clock = 0, wait_until_result = False,
      buffer_bytes = [0x6E, 0x6F, 0x0A]\<rparr>
     \<lparr>pty_input = [], records = []\<rparr>
   = Inl (TimeoutError
           (ustr ''Condition not met for input step. Expectation: OutputCondition(contains=''
            @ [0x27] @ ustr ''ok'' @ [0x27] @ ustr ''), buffer tail: no'' @ [0x0A]))"
  using timeout_payload
    [where env = "\<lparr>recorder_offset = 3, wall_clock = 0, wait_until_result = False,
                   buffer_bytes = [0x6E, 0x6F, 0x0A]\<rparr>"
       and step = "\<lparr>payload = ustr ''ls'', mark = Some (ustr ''m''),
          expect = Some \<lparr>contains = Some (ustr ''ok''), regex = None, predicate = None\<rparr>,
          expect_timeout = None, delay = 0, send_newline = True\<rparr>"
       and cond = "\<lparr>contains = Some (ustr ''ok''), regex = None, predicate = None\<rparr>"
       and encoded = "[0x6C, 0x73]"
       and wstep = "\<lparr>condition = \<lparr>contains = Some (ustr ''ok''), regex = None, predicate = None\<rparr>,
                      timeout = 5\<rparr>"
       and repr_str = "\<lambda>s. [0x27] @ s @ [0x27]" and repr_callable = "\<lambda>f. ustr ''<function>''"
       and st = "\<lparr>pty_input = [], records = []\<rparr>"]
  by (simp add: buffer_tail_def OutputCondition_repr_def utf8_encode_char_def ustr_def)

text \<open>
  The tail is cut in code points, not in bytes: of a buffer of 250 two-byte characters the
  message carries the last 200 characters, which are 400 bytes of the buffer.
\<close>

theorem timeout_payload_counterexample:
  "run_wait_step (\<lambda>s. [0x27] @ s @ [0x27]) (\<lambda>f. ustr ''<function>'')
     \<lparr>condition = \<lparr>contains = Some (ustr ''ok''), regex = None, predicate = None\<rparr>, timeout = 5\<rparr>
     \<lparr>recorder_offset = 500, wall_clock = 0, wait_until_result = False,
      buffer_bytes = concat (replicate 250 [0xC3, 0xA9])\<rparr>
     \<lparr>pty_input = [], records = []\<rparr>
   = Inl (TimeoutError
           (ustr ''Wait step timed out. Expectation: OutputCondition(contains=''
            @ [0x27] @ ustr ''ok'' @ [0x27] @ ustr ''), buffer tail: '' @ replicate 200 0xE9))
   \<and> utf8_encode (replicate 200 0xE9) = Inr (concat (replicate 200 [0xC3, 0xA9]))
   \<and> length (concat (replicate 200 [0xC3, 0xA9 :: byte])) = 400"
  by (simp add: run_wait_step_def buffer_tail_def decode_e_acute encode_e_acute
      length_concat_replicate OutputCondition_repr_def ustr_def del: utf8_decode_ignore.simps)

text \<open>
  Claim C9 at \<open>OutputCondition(contains="")\<close>: the constructor accepts the condition, the
  empty string is a substring of every text, and \<open>matches\<close> returns false on every text.
\<close>

theorem matches_empty_contains:
  "OutputCondition_init re_compile (Some []) None None =
     Inr \<lparr>contains = Some [], regex = None, predicate = None\<rparr>
   \<and> sublist [] t
   \<and> matches re_compile \<lparr>contains = Some [], regex = None, predicate = None\<rparr> t = Inr False"
  by (simp add: OutputCondition_init_def matches_def)

text \<open>
  Away from empty strings \<open>matches\<close> is the disjunction of the claim, and construction
  fails as it says.
\<close>

lemma matches_nonempty:
  assumes "contains c \<noteq> Some []" and "regex c \<noteq> Some []"
    and "\<forall>r. regex c = Some r \<longrightarrow> re_compile r \<noteq> None"
  shows "matches re_compile c t =
     Inr ((\<exists>s. contains c = Some s \<and> sublist s t)
          \<or> (\<exists>r search. regex c = Some r \<and> re_compile r = Some search \<and> search t)
          \<or> (\<exists>p. predicate c = Some p \<and> p t))"
  using assms by (auto simp: matches_def split: option.splits)

lemma OutputCondition_init_fails:
  "OutputCondition_init re_compile None None None =
     Inl (ValueError (ustr ''At least one condition must be provided''))"
  "re_compile r = None \<Longrightarrow> OutputCondition_init re_compile c (Some r) p = Inl RegexError"
  by (simp_all add: OutputCondition_init_def)

end
